theory Spec2Isabelle
  imports Complex_Main "HOL-Library.Sublist"
begin

section \<open>The serial transport and the display session\<close>

text \<open>
  The driver talks to the display through a serial port object. The port is outside the
  driver, so it is modelled by what the driver can observe and do:
  \<^item> \<open>incoming\<close> is the schedule of the bytes the port will deliver: its k-th element is
    the byte string that the k-th call of \<open>ReadBack\<close> finds waiting and drains with
    \<open>inWaiting\<close>/\<open>read(1)\<close>; once the schedule is used up nothing more is ever waiting;
  \<^item> \<open>trace\<close> records, in order, what the driver did: each \<open>write\<close>, each
    \<open>time.sleep(0.1)\<close>, each drain of the port, and the close/open of a baud rate change.
\<close>

datatype event = Write string | Sleep | Poll | Close | Open

record serial =
  incoming :: "string list"
  trace :: "event list"
  baudrate :: int

text \<open>The fields that \<open>SunLCD.__init__\<close> creates. A font is a dictionary from a character
  to the image ID of its glyph; an image entry is the pair \<open>[address, (W, H)]\<close>.\<close>

type_synonym image_info = "int \<times> (int \<times> int)"
type_synonym font = "char \<rightharpoonup> nat"

record SunLCD =
  ser :: serial
  ok :: bool
  response_body :: string
  buf :: string
  cursor :: "int \<times> int"
  img_list :: "image_info list"
  img_offset :: int
  font_list :: "font list"
  current_orientation :: int
  standard_width :: int
  standard_height :: int

abbreviation LF :: char where "LF \<equiv> CHR 0x0A"
abbreviation CR :: char where "CR \<equiv> CHR 0x0D"

definition CRLF :: string where
  "CRLF = [CR, LF]"

definition VERTICAL :: int where "VERTICAL = 0"
definition HORIZONTAL :: int where "HORIZONTAL = 1"
definition COLOR_BLACK :: int where "COLOR_BLACK = 0"
definition COLOR_WHITE :: int where "COLOR_WHITE = 15"

subsection \<open>Python primitives used by the driver\<close>

text \<open>\<open>str.strip()\<close> without arguments removes leading and trailing whitespace: space,
  tab, line feed, carriage return, vertical tab and form feed.\<close>

definition is_space :: "char \<Rightarrow> bool" where
  "is_space c = (c \<in> set [CHR 0x20, CHR 0x09, LF, CR, CHR 0x0B, CHR 0x0C])"

definition strip :: "string \<Rightarrow> string" where
  "strip s = rev (dropWhile is_space (rev (dropWhile is_space s)))"

text \<open>\<open>str(n)\<close> of an integer: its decimal digits, with a minus sign when negative.\<close>

definition digit_char :: "nat \<Rightarrow> char" where
  "digit_char d = char_of (48 + d)"

fun str_nat :: "nat \<Rightarrow> string" where
  "str_nat n = (if n < 10 then [digit_char n] else str_nat (n div 10) @ [digit_char (n mod 10)])"

declare str_nat.simps [simp del]

definition str_int :: "int \<Rightarrow> string" where
  "str_int i = (if i < 0 then CHR ''-'' # str_nat (nat (- i)) else str_nat (nat i))"

text \<open>Indexing a list with an integer: a negative index counts from the end, and an index
  outside \<open>-len .. len-1\<close> raises \<open>IndexError\<close>.\<close>

datatype error = IndexError

definition py_index :: "'a list \<Rightarrow> int \<Rightarrow> error + 'a" where
  "py_index xs i =
     (if int (length xs) \<le> i \<or> i < - int (length xs) then Inl IndexError
      else if i < 0 then Inr (xs ! nat (int (length xs) + i))
      else Inr (xs ! nat i))"

subsection \<open>Operations on the port\<close>

definition log_event :: "event \<Rightarrow> SunLCD \<Rightarrow> SunLCD" where
  "log_event e s = s\<lparr>ser := (ser s)\<lparr>trace := trace (ser s) @ [e]\<rparr>\<rparr>"

definition ser_write :: "string \<Rightarrow> SunLCD \<Rightarrow> SunLCD" where
  "ser_write bytes s = log_event (Write bytes) s"

definition sleep :: "SunLCD \<Rightarrow> SunLCD" where
  "sleep s = log_event Sleep s"

text \<open>The first loop of \<open>ReadBack\<close> reads until nothing is waiting: it takes the next
  element of the schedule (nothing, when the schedule is used up).\<close>

definition ser_drain :: "SunLCD \<Rightarrow> string \<times> SunLCD" where
  "ser_drain s =
     (case incoming (ser s) of
        [] \<Rightarrow> ([], log_event Poll s)
      | chunk # rest \<Rightarrow> (chunk, log_event Poll (s\<lparr>ser := (ser s)\<lparr>incoming := rest\<rparr>\<rparr>)))"

text \<open>The strings written so far, in order.\<close>

fun writes_of :: "event list \<Rightarrow> string list" where
  "writes_of [] = []"
| "writes_of (Write b # es) = b # writes_of es"
| "writes_of (_ # es) = writes_of es"

section \<open>Serial processing methods\<close>

text \<open>The byte loop of \<open>ReadBack\<close>: a line feed (byte 10) closes a line, which is the
  buffer stripped; any other byte is appended to the buffer.\<close>

fun ReadBack_bytes :: "string \<Rightarrow> string list \<times> string \<Rightarrow> string list \<times> string" where
  "ReadBack_bytes [] (responses, b) = (responses, b)"
| "ReadBack_bytes (c # cs) (responses, b) =
     (if of_char c = (10::nat) then ReadBack_bytes cs (responses @ [strip b], [])
      else ReadBack_bytes cs (responses, b @ [c]))"

text \<open>The body of the second loop of \<open>ReadBack\<close>.\<close>

definition ReadBack_response :: "string \<Rightarrow> SunLCD \<Rightarrow> SunLCD" where
  "ReadBack_response response s =
     (let s1 = (if response = ''OK'' then s\<lparr>ok := True\<rparr> else s)
      in s1\<lparr>response_body := response\<rparr>)"

text \<open>\<open>ReadBack\<close> returns \<open>True\<close> or \<open>None\<close>: \<open>Some True\<close> or \<open>None\<close> here.\<close>

definition ReadBack :: "SunLCD \<Rightarrow> bool option \<times> SunLCD" where
  "ReadBack s =
     (let (chunk, s1) = ser_drain s;
          (responses, b) = ReadBack_bytes chunk ([], buf s1);
          s2 = s1\<lparr>buf := b\<rparr>
      in if length responses = 0 then (None, s2)
         else (Some True, fold ReadBack_response responses s2))"

text \<open>The polling loop of \<open>send_serial\<close>, with \<open>i\<close> the attempts left.\<close>

fun send_serial_loop :: "nat \<Rightarrow> SunLCD \<Rightarrow> bool \<times> SunLCD" where
  "send_serial_loop 0 s = (False, s)"
| "send_serial_loop (Suc i) s =
     (let s1 = sleep s;
          (res, s2) = ReadBack s1
      in if res \<noteq> None then (True, s2) else send_serial_loop i s2)"

definition send_serial :: "string \<Rightarrow> SunLCD \<Rightarrow> bool \<times> SunLCD" where
  "send_serial cmd s =
     (let s1 = s\<lparr>ok := False\<rparr>;
          s2 = s1\<lparr>response_body := []\<rparr>;
          s3 = ser_write (cmd @ CRLF) s2
      in send_serial_loop 10 s3)"

section \<open>Internal LCD methods: the command encoder\<close>

text \<open>Coordinates, sizes, colours and addresses are Python integers. A position or size
  that a method only indexes with \<open>[0]\<close> and \<open>[1]\<close> is a pair.\<close>

definition Reset :: "SunLCD \<Rightarrow> bool \<times> SunLCD" where
  "Reset s = send_serial ''RESET'' s"

definition Version :: "SunLCD \<Rightarrow> bool \<times> SunLCD" where
  "Version s = send_serial ''VER'' s"

definition Baudrate :: "int \<Rightarrow> SunLCD \<Rightarrow> bool \<times> SunLCD" where
  "Baudrate rate s =
     (let (res, s1) = send_serial (''BPS('' @ str_int rate @ '')'') s;
          s2 = log_event Close s1;
          s3 = s2\<lparr>ser := (ser s2)\<lparr>baudrate := rate\<rparr>\<rparr>;
          s4 = log_event Open s3
      in (res, s4))"

definition Clear :: "int \<Rightarrow> SunLCD \<Rightarrow> bool \<times> SunLCD" where
  "Clear color s = send_serial (''CLR('' @ str_int color @ '')'') s"

text \<open>\<open>On\<close> tests \<open>(on_off is False) or (on_off == 0)\<close>; a Python boolean is the integer
  0 or 1, so the argument is an integer here.\<close>

definition On :: "int \<Rightarrow> SunLCD \<Rightarrow> bool \<times> SunLCD" where
  "On on_off s = (if on_off = 0 then send_serial ''LCDON(0)'' s else send_serial ''LCDON(1)'' s)"

definition FSIMG :: "int \<Rightarrow> int \<Rightarrow> int \<Rightarrow> int \<Rightarrow> int \<Rightarrow> int \<Rightarrow> string" where
  "FSIMG address x y w h transparent =
     ''FSIMG('' @ str_int address @ '','' @ str_int x @ '','' @ str_int y @ '','' @
     str_int w @ '','' @ str_int h @ '','' @ str_int transparent @ '')''"

definition RawImage :: "int \<Rightarrow> int \<times> int \<Rightarrow> int \<times> int \<Rightarrow> int \<Rightarrow> SunLCD \<Rightarrow> bool \<times> SunLCD" where
  "RawImage address position sz transparent s =
     send_serial (FSIMG address (fst position) (snd position) (fst sz) (snd sz) transparent) s"

definition Orientation :: "int \<Rightarrow> SunLCD \<Rightarrow> bool \<times> SunLCD" where
  "Orientation orientation s =
     (if orientation = 0 then send_serial ''DIR(0)'' (s\<lparr>current_orientation := orientation\<rparr>)
      else if orientation = 1 then send_serial ''DIR(1)'' (s\<lparr>current_orientation := orientation\<rparr>)
      else (False, s))"

text \<open>
  Python's \<open>float\<close> is the IEEE 754 binary64 format. A finite double is the rational it
  denotes; \<open>Infinite\<close> stands for an infinity of either sign or a NaN, the values on which
  \<open>int\<close> raises. \<open>float\<close> of a number and each arithmetic operation deliver the double
  nearest to the exact result, a tie going to the even mantissa: for a rational \<open>x\<close> that
  is not zero, with \<open>e\<close> the integer such that \<open>2^e \<le> |x| < 2^(e+1)\<close>, the doubles around
  \<open>x\<close> are the multiples of \<open>2^u\<close> for \<open>u\<close> the larger of \<open>e - 52\<close> and \<open>-1074\<close>, and
  a rounded magnitude of \<open>2^1024\<close> or more is an overflow.
\<close>

datatype b64 = Finite rat | Infinite

text \<open>The number of binary digits of a positive integer.\<close>

function bitlen :: "int \<Rightarrow> int" where
  "bitlen n = (if n \<le> 0 then 0 else 1 + bitlen (n div 2))"
  by pat_completeness auto
termination
  by (relation "measure nat") auto

declare bitlen.simps [simp del]

definition pow2 :: "int \<Rightarrow> rat" where
  "pow2 e = (if 0 \<le> e then 2 ^ nat e else 1 / 2 ^ nat (- e))"

text \<open>For a positive rational \<open>a\<close>, the integer \<open>e\<close> with \<open>2^e \<le> a < 2^(e+1)\<close>.\<close>

definition floor_log2 :: "rat \<Rightarrow> int" where
  "floor_log2 a = (if 1 \<le> a then bitlen \<lfloor>a\<rfloor> - 1 else - bitlen (\<lceil>1 / a\<rceil> - 1))"

definition round_half_even :: "rat \<Rightarrow> int" where
  "round_half_even x =
     (let f = \<lfloor>x\<rfloor>; r = x - of_int f
      in if r < 1 / 2 then f else if 1 / 2 < r then f + 1 else if even f then f else f + 1)"

definition b64_round :: "rat \<Rightarrow> b64" where
  "b64_round x =
     (if x = 0 then Finite 0
      else (let a = \<bar>x\<bar>;
                u = max (floor_log2 a - 52) (- 1074);
                m = round_half_even (a / pow2 u);
                v = of_int m * pow2 u
            in if pow2 1024 \<le> v then Infinite else Finite (if x < 0 then - v else v)))"

text \<open>Subtraction and multiplication of doubles: the exact result, rounded; an operand that
  is not finite gives a result that is not finite.\<close>

fun b64_sub :: "b64 \<Rightarrow> b64 \<Rightarrow> b64" where
  "b64_sub (Finite a) (Finite b) = b64_round (a - b)"
| "b64_sub _ _ = Infinite"

fun b64_mul :: "b64 \<Rightarrow> b64 \<Rightarrow> b64" where
  "b64_mul (Finite a) (Finite b) = b64_round (a * b)"
| "b64_mul _ _ = Infinite"

text \<open>\<open>int\<close> of a double truncates towards zero; it raises \<open>OverflowError\<close> or
  \<open>ValueError\<close> on an infinity or a NaN, which is \<open>None\<close> here.\<close>

fun py_int :: "b64 \<Rightarrow> int option" where
  "py_int (Finite x) = Some (if 0 \<le> x then \<lfloor>x\<rfloor> else \<lceil>x\<rceil>)"
| "py_int Infinite = None"

text \<open>
  The argument of \<open>Brightness\<close> is either a number, given by its exact value (\<open>float\<close>
  rounds it to a double, or overflows), or a value on which \<open>float\<close> raises (\<open>None\<close>, a
  string that is not a number) or delivers an infinity or a NaN, on which \<open>int\<close> then
  raises. The \<open>try\<close>/\<open>except\<close> turns every raise of \<open>float\<close> and \<open>int\<close> into the
  result \<open>False\<close>.
\<close>

datatype level_arg = Numeric rat | NotConvertible

text \<open>The expression \<open>(1.0 - float(level))*255\<close>.\<close>

definition Brightness_product :: "rat \<Rightarrow> b64" where
  "Brightness_product level = b64_mul (b64_sub (Finite 1) (b64_round level)) (Finite 255)"

text \<open>The two clamping statements.\<close>

definition Brightness_clamp :: "int \<Rightarrow> int" where
  "Brightness_clamp bl_val =
     (let bl_val = (if bl_val < 0 then 0 else bl_val);
          bl_val = (if bl_val > 255 then 255 else bl_val)
      in bl_val)"

definition Brightness :: "level_arg \<Rightarrow> SunLCD \<Rightarrow> bool \<times> SunLCD" where
  "Brightness level s =
     (case level of
        NotConvertible \<Rightarrow> (False, s)
      | Numeric l \<Rightarrow>
          (case py_int (Brightness_product l) of
             None \<Rightarrow> (False, s)
           | Some bl_val \<Rightarrow> send_serial (''BL('' @ str_int (Brightness_clamp bl_val) @ '')'') s))"

definition Point :: "int \<times> int \<Rightarrow> int \<Rightarrow> SunLCD \<Rightarrow> bool \<times> SunLCD" where
  "Point location color s =
     send_serial (''PS('' @ str_int (fst location) @ '','' @ str_int (snd location) @ '','' @
                  str_int color @ '')'') s"

definition Line :: "int \<times> int \<Rightarrow> int \<times> int \<Rightarrow> int \<Rightarrow> SunLCD \<Rightarrow> bool \<times> SunLCD" where
  "Line origin destination color s =
     send_serial (''PL('' @ str_int (fst origin) @ '','' @ str_int (snd origin) @ '','' @
                  str_int (fst destination) @ '','' @ str_int (snd destination) @ '','' @
                  str_int color @ '')'') s"

definition HollowBox :: "int \<times> int \<Rightarrow> int \<times> int \<Rightarrow> int \<Rightarrow> SunLCD \<Rightarrow> bool \<times> SunLCD" where
  "HollowBox top_left bottom_right color s =
     send_serial (''BOX('' @ str_int (fst top_left) @ '','' @ str_int (snd top_left) @ '','' @
                  str_int (fst bottom_right) @ '','' @ str_int (snd bottom_right) @ '','' @
                  str_int color @ '')'') s"

definition FilledBox :: "int \<times> int \<Rightarrow> int \<times> int \<Rightarrow> int \<Rightarrow> SunLCD \<Rightarrow> bool \<times> SunLCD" where
  "FilledBox top_left bottom_right color s =
     send_serial (''BOXF('' @ str_int (fst top_left) @ '','' @ str_int (snd top_left) @ '','' @
                  str_int (fst bottom_right) @ '','' @ str_int (snd bottom_right) @ '','' @
                  str_int color @ '')'') s"

definition HollowCircle :: "int \<times> int \<Rightarrow> int \<Rightarrow> int \<Rightarrow> SunLCD \<Rightarrow> bool \<times> SunLCD" where
  "HollowCircle center radius color s =
     send_serial (''CIR('' @ str_int (fst center) @ '','' @ str_int (snd center) @ '','' @
                  str_int radius @ '','' @ str_int color @ '')'') s"

definition FilledCircle :: "int \<times> int \<Rightarrow> int \<Rightarrow> int \<Rightarrow> SunLCD \<Rightarrow> bool \<times> SunLCD" where
  "FilledCircle center radius color s =
     send_serial (''CIRF('' @ str_int (fst center) @ '','' @ str_int (snd center) @ '','' @
                  str_int radius @ '','' @ str_int color @ '')'') s"

definition Background :: "int \<Rightarrow> SunLCD \<Rightarrow> bool \<times> SunLCD" where
  "Background color s = send_serial (''SBC('' @ str_int color @ '')'') s"

definition DCV :: "string \<Rightarrow> int \<times> int \<Rightarrow> string \<Rightarrow> int \<Rightarrow> string" where
  "DCV name location text color =
     name @ ''('' @ str_int (fst location) @ '','' @ str_int (snd location) @ '','' @
     [CHR 0x27] @ text @ [CHR 0x27] @ '','' @ str_int color @ '')''"

definition TextSmall :: "int \<times> int \<Rightarrow> string \<Rightarrow> int \<Rightarrow> SunLCD \<Rightarrow> bool \<times> SunLCD" where
  "TextSmall location text color s = send_serial (DCV ''DCV16'' location text color) s"

definition TextMedium :: "int \<times> int \<Rightarrow> string \<Rightarrow> int \<Rightarrow> SunLCD \<Rightarrow> bool \<times> SunLCD" where
  "TextMedium location text color s = send_serial (DCV ''DCV24'' location text color) s"

definition TextLarge :: "int \<times> int \<Rightarrow> string \<Rightarrow> int \<Rightarrow> SunLCD \<Rightarrow> bool \<times> SunLCD" where
  "TextLarge location text color s = send_serial (DCV ''DCV32'' location text color) s"

section \<open>Object-level methods\<close>

text \<open>\<open>MoveTo\<close> and \<open>LineTo\<close> check that the position is a tuple or list of length 2: the
  position is a list of integers here, of any length. \<open>LineTo\<close> falls off its end, returning
  \<open>None\<close>, when the check fails.\<close>

definition MoveTo :: "int list \<Rightarrow> SunLCD \<Rightarrow> bool \<times> SunLCD" where
  "MoveTo position s =
     (if length position = 2 then (True, s\<lparr>cursor := (position ! 0, position ! 1)\<rparr>)
      else (False, s))"

definition LineTo :: "int list \<Rightarrow> int \<Rightarrow> SunLCD \<Rightarrow> bool option \<times> SunLCD" where
  "LineTo position color s =
     (if length position = 2 then
        (let (res, s1) = Line (cursor s) (position ! 0, position ! 1) color s
         in if res = False then (Some False, s1)
            else (let (r, s2) = MoveTo position s1 in (Some r, s2)))
      else (None, s))"

definition ListImage :: "int \<times> int \<Rightarrow> SunLCD \<Rightarrow> nat \<times> SunLCD" where
  "ListImage sz s =
     (let byte_len = fst sz * snd sz * 2;
          s1 = s\<lparr>img_list := img_list s @ [(img_offset s, sz)]\<rparr>;
          s2 = s1\<lparr>img_offset := img_offset s1 + byte_len\<rparr>
      in (length (img_list s2) - 1, s2))"

text \<open>The loop of \<open>ListFont\<close> over the characters of \<open>char_list\<close>.\<close>

fun ListFont_loop :: "int \<times> int \<Rightarrow> string \<Rightarrow> font \<Rightarrow> SunLCD \<Rightarrow> font \<times> SunLCD" where
  "ListFont_loop char_size [] this_font s = (this_font, s)"
| "ListFont_loop char_size (c # cs) this_font s =
     (let (image_id, s1) = ListImage char_size s
      in ListFont_loop char_size cs (this_font(c \<mapsto> image_id)) s1)"

definition ListFont :: "int \<times> int \<Rightarrow> string \<Rightarrow> SunLCD \<Rightarrow> nat \<times> SunLCD" where
  "ListFont char_size char_list s =
     (let (this_font, s1) = ListFont_loop char_size char_list Map.empty s;
          s2 = s1\<lparr>font_list := font_list s1 @ [this_font]\<rparr>
      in (length (font_list s2) - 1, s2))"

text \<open>The default \<open>char_list\<close>: the characters 0x20 to 0x7E in order.\<close>

definition default_char_list :: string where
  "default_char_list = map char_of [32 ..< 127 :: nat]"

text \<open>\<open>ShowImage\<close> and \<open>TextFont\<close> index a registry with the ID they are given, which
  raises \<open>IndexError\<close> when Python's indexing does.\<close>

definition ShowImage :: "int \<Rightarrow> int \<times> int \<Rightarrow> int \<Rightarrow> SunLCD \<Rightarrow> (error + bool) \<times> SunLCD" where
  "ShowImage image_id position transparent s =
     (if image_id > int (length (img_list s)) - 1 then (Inr False, s)
      else (case py_index (img_list s) image_id of
              Inl e \<Rightarrow> (Inl e, s)
            | Inr img_info \<Rightarrow>
                (let (res, s1) = RawImage (fst img_info) position (snd img_info) transparent s
                 in (Inr res, s1))))"

text \<open>Moving the draw cursor of \<open>TextFont\<close> after a glyph: advance, line wrap, screen wrap.\<close>

definition TextFont_advance :: "int \<Rightarrow> int \<Rightarrow> int \<times> int \<Rightarrow> int \<times> int \<Rightarrow> int \<times> int" where
  "TextFont_advance lcd_w lcd_h char_size xy =
     (let x = fst xy + fst char_size
      in if x \<ge> lcd_w - fst char_size then
           (let y = snd xy + snd char_size
            in if y \<ge> lcd_h - snd char_size then (0, 0) else (0, y))
         else (x, snd xy))"

text \<open>The loop of \<open>TextFont\<close> over the characters of the text. It ends by running out of
  characters (with the commands not yet sent), by \<open>return False\<close> after a flush that timed
  out, or by an \<open>IndexError\<close> when a glyph's image ID is not in the image registry.\<close>

datatype loop_exit = Completed string | Returned bool | Raised error

fun TextFont_loop ::
  "font \<Rightarrow> int \<Rightarrow> int \<Rightarrow> int \<Rightarrow> string \<Rightarrow> int \<times> int \<Rightarrow> nat \<Rightarrow> string \<Rightarrow> SunLCD \<Rightarrow> loop_exit \<times> SunLCD" where
  "TextFont_loop this_font lcd_w lcd_h transparent [] xy i send_str s = (Completed send_str, s)"
| "TextFont_loop this_font lcd_w lcd_h transparent (c # cs) xy i send_str s =
     (case this_font c of
        None \<Rightarrow> TextFont_loop this_font lcd_w lcd_h transparent cs xy i send_str s
      | Some char_img_id \<Rightarrow>
          (case py_index (img_list s) (int char_img_id) of
             Inl e \<Rightarrow> (Raised e, s)
           | Inr img_info \<Rightarrow>
               (let char_size = snd img_info;
                    send_str1 = send_str @ FSIMG (fst img_info) (fst xy) (snd xy)
                                  (fst char_size) (snd char_size) transparent @ '';'';
                    xy1 = TextFont_advance lcd_w lcd_h char_size xy;
                    i1 = i + 1
                in if i1 \<ge> 16 then
                     (let (res, s1) = send_serial send_str1 s
                      in if res = False then (Returned False, s1)
                         else TextFont_loop this_font lcd_w lcd_h transparent cs xy1 0 [] s1)
                   else TextFont_loop this_font lcd_w lcd_h transparent cs xy1 i1 send_str1 s)))"

definition TextFont :: "int \<Rightarrow> int \<times> int \<Rightarrow> string \<Rightarrow> int \<Rightarrow> SunLCD \<Rightarrow> (error + bool) \<times> SunLCD" where
  "TextFont font_id position text transparent s =
     (if font_id > int (length (font_list s)) - 1 then (Inr False, s)
      else (case py_index (font_list s) font_id of
              Inl e \<Rightarrow> (Inl e, s)
            | Inr this_font \<Rightarrow>
                (let lcd_w = (if current_orientation s = HORIZONTAL then standard_height s
                              else standard_width s);
                     lcd_h = (if current_orientation s = HORIZONTAL then standard_width s
                              else standard_height s)
                 in (case TextFont_loop this_font lcd_w lcd_h transparent text position 0 [] s of
                       (Raised e, s1) \<Rightarrow> (Inl e, s1)
                     | (Returned r, s1) \<Rightarrow> (Inr r, s1)
                     | (Completed send_str, s1) \<Rightarrow>
                         (if length send_str > 0 then
                            (let (res, s2) = send_serial send_str s1 in (Inr res, s2))
                          else (Inr True, s1))))))"

section \<open>Construction\<close>

text \<open>\<open>__init__\<close> opens the port at 115200 baud, sets the fields, writes an empty line,
  resets the display and, when the reset was answered, sets a black background. The
  schedule of the port is the parameter \<open>port\<close>.\<close>

definition SunLCD_init :: "string list \<Rightarrow> int \<Rightarrow> int \<Rightarrow> SunLCD" where
  "SunLCD_init port width height =
     (let s0 = \<lparr>ser = \<lparr>incoming = port, trace = [Open], baudrate = 115200\<rparr>,
                ok = False, response_body = [], buf = [], cursor = (0, 0),
                img_list = [], img_offset = 2097152, font_list = [],
                current_orientation = VERTICAL,
                standard_width = width, standard_height = height\<rparr>;
          s1 = ser_write CRLF s0;
          (res, s2) = Reset s1
      in if res then snd (Background COLOR_BLACK s2) else s2)"

section \<open>Notions used to state the properties\<close>

text \<open>\<open>frame s s'\<close>: the step from \<open>s\<close> to \<open>s'\<close> left the draw cursor, the image and font
  registries, the memory cursor, the orientation and the display dimensions as they were.\<close>

definition frame :: "SunLCD \<Rightarrow> SunLCD \<Rightarrow> bool" where
  "frame s s' \<longleftrightarrow>
     cursor s' = cursor s \<and> img_list s' = img_list s \<and> img_offset s' = img_offset s \<and>
     font_list s' = font_list s \<and> current_orientation s' = current_orientation s \<and>
     standard_width s' = standard_width s \<and> standard_height s' = standard_height s"

text \<open>The bytes that the next drain of the port finds, and the bytes that each of the next
  \<open>i\<close> drains finds (nothing, once the schedule is used up).\<close>

definition next_chunk :: "SunLCD \<Rightarrow> string" where
  "next_chunk s = (case incoming (ser s) of [] \<Rightarrow> [] | c # _ \<Rightarrow> c)"

definition polled :: "nat \<Rightarrow> SunLCD \<Rightarrow> string list" where
  "polled i s = take i (incoming (ser s) @ replicate i [])"

text \<open>\<open>same_registry s s'\<close>: the step left the image registry, the memory cursor and the
  font registry as they were.\<close>

definition same_registry :: "SunLCD \<Rightarrow> SunLCD \<Rightarrow> bool" where
  "same_registry s s' \<longleftrightarrow>
     img_list s' = img_list s \<and> img_offset s' = img_offset s \<and> font_list s' = font_list s"

text \<open>Registering a sequence of images, one \<open>ListImage\<close> call after the other.\<close>

fun register_all :: "(int \<times> int) list \<Rightarrow> SunLCD \<Rightarrow> SunLCD" where
  "register_all [] s = s"
| "register_all (sz # szs) s = register_all szs (snd (ListImage sz s))"

text \<open>The entries that a sequence of registrations starting at address \<open>a\<close> is expected
  to append: each one at the address where the previous one ends.\<close>

fun allocated :: "int \<Rightarrow> (int \<times> int) list \<Rightarrow> image_info list" where
  "allocated a [] = []"
| "allocated a (sz # szs) = (a, sz) # allocated (a + fst sz * snd sz * 2) szs"

text \<open>A call of any method of the class, with its arguments, and the session it leaves.\<close>

datatype call =
    CallReadBack
  | CallSendSerial string
  | CallReset
  | CallVersion
  | CallBaudrate int
  | CallClear int
  | CallOn int
  | CallRawImage int "int \<times> int" "int \<times> int" int
  | CallOrientation int
  | CallBrightness level_arg
  | CallPoint "int \<times> int" int
  | CallLine "int \<times> int" "int \<times> int" int
  | CallHollowBox "int \<times> int" "int \<times> int" int
  | CallFilledBox "int \<times> int" "int \<times> int" int
  | CallHollowCircle "int \<times> int" int int
  | CallFilledCircle "int \<times> int" int int
  | CallBackground int
  | CallTextSmall "int \<times> int" string int
  | CallTextMedium "int \<times> int" string int
  | CallTextLarge "int \<times> int" string int
  | CallMoveTo "int list"
  | CallLineTo "int list" int
  | CallListImage "int \<times> int"
  | CallListFont "int \<times> int" string
  | CallShowImage int "int \<times> int" int
  | CallTextFont int "int \<times> int" string int

fun run_call :: "call \<Rightarrow> SunLCD \<Rightarrow> SunLCD" where
  "run_call CallReadBack s = snd (ReadBack s)"
| "run_call (CallSendSerial cmd) s = snd (send_serial cmd s)"
| "run_call CallReset s = snd (Reset s)"
| "run_call CallVersion s = snd (Version s)"
| "run_call (CallBaudrate rate) s = snd (Baudrate rate s)"
| "run_call (CallClear color) s = snd (Clear color s)"
| "run_call (CallOn on_off) s = snd (On on_off s)"
| "run_call (CallRawImage address position sz transparent) s =
     snd (RawImage address position sz transparent s)"
| "run_call (CallOrientation orientation) s = snd (Orientation orientation s)"
| "run_call (CallBrightness level) s = snd (Brightness level s)"
| "run_call (CallPoint location color) s = snd (Point location color s)"
| "run_call (CallLine origin destination color) s = snd (Line origin destination color s)"
| "run_call (CallHollowBox top_left bottom_right color) s =
     snd (HollowBox top_left bottom_right color s)"
| "run_call (CallFilledBox top_left bottom_right color) s =
     snd (FilledBox top_left bottom_right color s)"
| "run_call (CallHollowCircle center radius color) s = snd (HollowCircle center radius color s)"
| "run_call (CallFilledCircle center radius color) s = snd (FilledCircle center radius color s)"
| "run_call (CallBackground color) s = snd (Background color s)"
| "run_call (CallTextSmall location text color) s = snd (TextSmall location text color s)"
| "run_call (CallTextMedium location text color) s = snd (TextMedium location text color s)"
| "run_call (CallTextLarge location text color) s = snd (TextLarge location text color s)"
| "run_call (CallMoveTo position) s = snd (MoveTo position s)"
| "run_call (CallLineTo position color) s = snd (LineTo position color s)"
| "run_call (CallListImage sz) s = snd (ListImage sz s)"
| "run_call (CallListFont char_size char_list) s = snd (ListFont char_size char_list s)"
| "run_call (CallShowImage image_id position transparent) s =
     snd (ShowImage image_id position transparent s)"
| "run_call (CallTextFont font_id position text transparent) s =
     snd (TextFont font_id position text transparent s)"

text \<open>The sizes a call registers are valid when neither dimension is negative.\<close>

fun valid_sizes :: "call \<Rightarrow> bool" where
  "valid_sizes (CallListImage sz) = (0 \<le> fst sz \<and> 0 \<le> snd sz)"
| "valid_sizes (CallListFont char_size char_list) = (0 \<le> fst char_size \<and> 0 \<le> snd char_size)"
| "valid_sizes _ = True"

text \<open>
  The glyph commands that the layout of a text is expected to emit, in order: a character
  that is not in the font is skipped; a character that is gives one \<open>FSIMG\<close> command for
  its glyph at the draw cursor, closed by a semicolon, and moves the draw cursor.
\<close>

fun glyph_commands ::
  "font \<Rightarrow> image_info list \<Rightarrow> int \<Rightarrow> int \<Rightarrow> int \<Rightarrow> string \<Rightarrow> int \<times> int \<Rightarrow> string list" where
  "glyph_commands f imgs lcd_w lcd_h transparent [] xy = []"
| "glyph_commands f imgs lcd_w lcd_h transparent (c # cs) xy =
     (case f c of
        None \<Rightarrow> glyph_commands f imgs lcd_w lcd_h transparent cs xy
      | Some g \<Rightarrow>
          (FSIMG (fst (imgs ! g)) (fst xy) (snd xy) (fst (snd (imgs ! g))) (snd (snd (imgs ! g)))
             transparent @ '';'') #
          glyph_commands f imgs lcd_w lcd_h transparent cs
            (TextFont_advance lcd_w lcd_h (snd (imgs ! g)) xy))"

text \<open>Batches of 16: the commands cut into groups of 16, the last group holding the rest.\<close>

fun batches :: "string list \<Rightarrow> string list list" where
  "batches cmds = (if cmds = [] then [] else take 16 cmds # batches (drop 16 cmds))"

declare batches.simps [simp del]

text \<open>Sending batches one after the other, each as one transmission, until one times out.\<close>

fun send_batches :: "string list list \<Rightarrow> SunLCD \<Rightarrow> bool \<times> SunLCD" where
  "send_batches [] s = (True, s)"
| "send_batches (b # bs) s =
     (if fst (send_serial (concat b) s) then send_batches bs (snd (send_serial (concat b) s))
      else (False, snd (send_serial (concat b) s)))"

text \<open>The loop of \<open>TextFont\<close> seen from the commands it accumulates: the counter, the
  pending string and the flush at 16.\<close>

fun batch_loop :: "string list \<Rightarrow> nat \<Rightarrow> string \<Rightarrow> SunLCD \<Rightarrow> loop_exit \<times> SunLCD" where
  "batch_loop [] i send_str s = (Completed send_str, s)"
| "batch_loop (cmd # cmds) i send_str s =
     (if i + 1 \<ge> 16 then
        (if fst (send_serial (send_str @ cmd) s)
         then batch_loop cmds 0 [] (snd (send_serial (send_str @ cmd) s))
         else (Returned False, snd (send_serial (send_str @ cmd) s)))
      else batch_loop cmds (i + 1) (send_str @ cmd) s)"

text \<open>What \<open>TextFont\<close> does with the exit of its loop.\<close>

fun TextFont_finish :: "loop_exit \<times> SunLCD \<Rightarrow> (error + bool) \<times> SunLCD" where
  "TextFont_finish (Raised e, s1) = (Inl e, s1)"
| "TextFont_finish (Returned r, s1) = (Inr r, s1)"
| "TextFont_finish (Completed send_str, s1) =
     (if length send_str > 0 then (Inr (fst (send_serial send_str s1)), snd (send_serial send_str s1))
      else (Inr True, s1))"

text \<open>The logical width and height of the display: swapped when horizontal.\<close>

definition lcd_w :: "SunLCD \<Rightarrow> int" where
  "lcd_w s = (if current_orientation s = HORIZONTAL then standard_height s else standard_width s)"

definition lcd_h :: "SunLCD \<Rightarrow> int" where
  "lcd_h s = (if current_orientation s = HORIZONTAL then standard_width s else standard_height s)"

text \<open>A session for concrete runs: a display 32 pixels wide and 320 high that answers
  \<open>OK\<close> to the first 30 polls, on which a 16x16 image, an 8x8 image and a font of 16x16
  glyphs for the characters \<open>A\<close> and \<open>B\<close> are registered.\<close>

definition example_session :: SunLCD where
  "example_session =
     snd (ListFont (16, 16) ''AB''
       (snd (ListImage (8, 8)
         (snd (ListImage (16, 16) (SunLCD_init (replicate 30 (''OK'' @ [LF])) 32 320))))))"

text \<open>The example session with a second font, of 8x8 glyphs, for the character \<open>A\<close>.\<close>

definition two_font_session :: SunLCD where
  "two_font_session = snd (ListFont (8, 8) ''A'' example_session)"

section \<open>The response reader\<close>

text \<open>Decimal strings of concrete integers are computed with these rules.\<close>

lemma digit_char_simps:
  "digit_char 0 = CHR ''0''" "digit_char 1 = CHR ''1''" "digit_char (Suc 0) = CHR ''1''"
  "digit_char 2 = CHR ''2''" "digit_char 3 = CHR ''3''" "digit_char 4 = CHR ''4''"
  "digit_char 5 = CHR ''5''" "digit_char 6 = CHR ''6''" "digit_char 7 = CHR ''7''"
  "digit_char 8 = CHR ''8''" "digit_char 9 = CHR ''9''"
  by code_simp+

lemmas str_int_eval = str_int_def str_nat.simps digit_char_simps

lemma of_char_LF: "(of_char c = (10::nat)) = (c = LF)"
proof -
  have "of_char LF = (10::nat)" by simp
  then show ?thesis by (metis of_char_eq_iff)
qed

lemma ReadBack_bytes_quiet:
  "LF \<notin> set pre \<Longrightarrow> ReadBack_bytes (pre @ cs) (rs, b) = ReadBack_bytes cs (rs, b @ pre)"
  by (induction pre arbitrary: b) (auto simp: of_char_LF)

lemma ReadBack_bytes_line:
  "LF \<notin> set pre \<Longrightarrow>
   ReadBack_bytes (pre @ LF # rest) (rs, b) = ReadBack_bytes rest (rs @ [strip (b @ pre)], [])"
  by (simp add: ReadBack_bytes_quiet)

lemma ReadBack_bytes_mono:
  "\<exists>more. fst (ReadBack_bytes cs (rs, b)) = rs @ more \<and> (more = [] \<longleftrightarrow> LF \<notin> set cs)"
proof (induction cs arbitrary: rs b)
  case Nil
  then show ?case by simp
next
  case (Cons c cs)
  show ?case
  proof (cases "c = LF")
    case True
    from Cons.IH[of "rs @ [strip b]" "[]"] obtain more where
      "fst (ReadBack_bytes cs (rs @ [strip b], [])) = (rs @ [strip b]) @ more" by blast
    then show ?thesis using True by (simp add: of_char_LF)
  next
    case False
    then show ?thesis using Cons.IH[of rs "b @ [c]"] by (simp add: of_char_LF)
  qed
qed

lemma ReadBack_bytes_empty_iff:
  "fst (ReadBack_bytes cs ([], b)) = [] \<longleftrightarrow> LF \<notin> set cs"
  using ReadBack_bytes_mono[of cs "[]" b] by auto

lemma ReadBack_bytes_quiet_all:
  "LF \<notin> set cs \<Longrightarrow> ReadBack_bytes cs (rs, b) = (rs, b @ cs)"
  using ReadBack_bytes_quiet[of cs "[]" rs b] by simp

lemma frame_refl: "frame s s"
  by (simp add: frame_def)

lemma frame_trans: "frame s s1 \<Longrightarrow> frame s1 s2 \<Longrightarrow> frame s s2"
  by (simp add: frame_def)

lemma frame_log_event: "frame s (log_event e s)"
  by (simp add: frame_def log_event_def)

lemma fold_ReadBack_response_frame: "frame s (fold ReadBack_response rs s)"
proof (induction rs arbitrary: s)
  case Nil
  show ?case by (simp add: frame_refl)
next
  case (Cons r rs)
  have "frame s (ReadBack_response r s)"
    by (simp add: frame_def ReadBack_response_def Let_def)
  with Cons.IH[of "ReadBack_response r s"] show ?case
    by (auto intro: frame_trans)
qed

lemma fold_ReadBack_response_ser: "ser (fold ReadBack_response rs s) = ser s"
  by (induction rs arbitrary: s) (simp_all add: ReadBack_response_def Let_def)

lemma fold_ReadBack_response_buf: "buf (fold ReadBack_response rs s) = buf s"
  by (induction rs arbitrary: s) (simp_all add: ReadBack_response_def Let_def)

lemma fold_ReadBack_response_body:
  "response_body (fold ReadBack_response rs s) = (if rs = [] then response_body s else last rs)"
  by (induction rs arbitrary: s) (simp_all add: ReadBack_response_def Let_def)

lemma fold_ReadBack_response_ok:
  "ok (fold ReadBack_response rs s) = (ok s \<or> ''OK'' \<in> set rs)"
  by (induction rs arbitrary: s) (auto simp: ReadBack_response_def Let_def)

lemma ser_drain_fst: "fst (ser_drain s) = next_chunk s"
  by (simp add: ser_drain_def next_chunk_def split: list.splits)

lemma ser_drain_snd:
  "snd (ser_drain s) = s\<lparr>ser := (ser s)\<lparr>incoming := tl (incoming (ser s)),
                                           trace := trace (ser s) @ [Poll]\<rparr>\<rparr>"
  by (simp add: ser_drain_def log_event_def split: list.splits)

lemma ReadBack_fst: "fst (ReadBack s) = (if LF \<in> set (next_chunk s) then Some True else None)"
  using ReadBack_bytes_empty_iff[of "next_chunk s" "buf s"]
  by (simp add: ReadBack_def split_beta Let_def ser_drain_fst ser_drain_snd)

lemma ReadBack_ser:
  "ser (snd (ReadBack s)) = (ser s)\<lparr>incoming := tl (incoming (ser s)),
                                     trace := trace (ser s) @ [Poll]\<rparr>"
  by (simp add: ReadBack_def split_beta Let_def ser_drain_snd fold_ReadBack_response_ser)

lemma ReadBack_frame: "frame s (snd (ReadBack s))"
proof -
  have "frame s (snd (ser_drain s))"
    by (simp add: ser_drain_snd frame_def)
  moreover have "frame (snd (ser_drain s)) (snd (ReadBack s))"
    using fold_ReadBack_response_frame
    by (simp add: ReadBack_def split_beta Let_def frame_def)
  ultimately show ?thesis by (rule frame_trans)
qed

lemma ReadBack_quiet:
  "LF \<notin> set (next_chunk s) \<Longrightarrow>
   ok (snd (ReadBack s)) = ok s \<and> response_body (snd (ReadBack s)) = response_body s \<and>
   buf (snd (ReadBack s)) = buf s @ next_chunk s"
  by (simp add: ReadBack_def split_beta Let_def ser_drain_fst ser_drain_snd
      ReadBack_bytes_quiet_all)

lemma ReadBack_snd:
  "snd (ReadBack s) =
     (let rb = ReadBack_bytes (next_chunk s) ([], buf s)
      in fold ReadBack_response (fst rb) ((snd (ser_drain s))\<lparr>buf := snd rb\<rparr>))"
  by (simp add: ReadBack_def split_beta Let_def ser_drain_fst ser_drain_snd)

lemma ReadBack_ok:
  "ok (snd (ReadBack s)) =
     (ok s \<or> ''OK'' \<in> set (fst (ReadBack_bytes (next_chunk s) ([], buf s))))"
  by (simp add: ReadBack_snd Let_def fold_ReadBack_response_ok ser_drain_snd)

lemma ReadBack_response_body:
  "response_body (snd (ReadBack s)) =
     (let ls = fst (ReadBack_bytes (next_chunk s) ([], buf s))
      in if ls = [] then response_body s else last ls)"
  by (simp add: ReadBack_snd Let_def fold_ReadBack_response_body ser_drain_snd)

lemma ReadBack_buf:
  "buf (snd (ReadBack s)) = snd (ReadBack_bytes (next_chunk s) ([], buf s))"
  by (simp add: ReadBack_snd Let_def fold_ReadBack_response_buf ser_drain_snd)

lemma ReadBack_bytes_OK: "ReadBack_bytes (''OK'' @ [LF]) ([], []) = ([''OK''], [])"
  by (simp add: strip_def is_space_def)

lemma ReadBack_bytes_FOO_BAR:
  "ReadBack_bytes (''FOO'' @ [LF] @ ''BAR'' @ [LF]) ([], []) = ([''FOO'', ''BAR''], [])"
  by (simp add: strip_def is_space_def)

text \<open>
  Claim C2. Fed the bytes \<open>OK\<close>, line feed, and then \<open>FOO\<close>, line feed, \<open>BAR\<close>, line feed, in two
  successive calls, on a session
  whose buffer is empty and whose acknowledgement flag is false, the reader emits the lines
  \<open>OK\<close>, then \<open>FOO\<close> and \<open>BAR\<close>; the flag is true after the first call and the status text
  after the second call is \<open>BAR\<close>. In general a line is the pending buffer up to the line
  feed, stripped, and the bytes after the last line feed stay in the buffer; the flag is set
  exactly when one of the lines is \<open>OK\<close>, and the status text is the last line received.
\<close>

theorem ReadBack_lines:
  assumes "ok s = False" and "buf s = []"
    and "incoming (ser s) = [''OK'' @ [LF], ''FOO'' @ [LF] @ ''BAR'' @ [LF]]"
  shows "ReadBack_bytes (''OK'' @ [LF]) ([], buf s) = ([''OK''], []) \<and>
         ReadBack_bytes (''FOO'' @ [LF] @ ''BAR'' @ [LF]) ([], []) = ([''FOO'', ''BAR''], []) \<and>
         (let (r1, s1) = ReadBack s; (r2, s2) = ReadBack s1
          in r1 = Some True \<and> ok s1 \<and> response_body s1 = ''OK'' \<and> buf s1 = [] \<and>
             r2 = Some True \<and> ok s2 \<and> response_body s2 = ''BAR'' \<and> buf s2 = []) \<and>
         (LF \<notin> set pre \<longrightarrow>
            ReadBack_bytes (pre @ LF # rest) (rs, b) =
              ReadBack_bytes rest (rs @ [strip (b @ pre)], []) \<and>
            ReadBack_bytes pre (rs, b) = (rs, b @ pre)) \<and>
         ok (fold ReadBack_response ls s') = (ok s' \<or> ''OK'' \<in> set ls) \<and>
         response_body (fold ReadBack_response ls s') =
           (if ls = [] then response_body s' else last ls)"
proof -
  have n1: "next_chunk s = ''OK'' @ [LF]"
    using assms(3) by (simp add: next_chunk_def)
  have i1: "incoming (ser (snd (ReadBack s))) = [''FOO'' @ [LF] @ ''BAR'' @ [LF]]"
    using assms(3) by (simp add: ReadBack_ser)
  then have n2: "next_chunk (snd (ReadBack s)) = ''FOO'' @ [LF] @ ''BAR'' @ [LF]"
    by (simp add: next_chunk_def)
  have b1: "buf (snd (ReadBack s)) = []"
    unfolding ReadBack_buf n1 assms(2) ReadBack_bytes_OK by simp
  have o1: "ok (snd (ReadBack s))"
    unfolding ReadBack_ok n1 assms(2) ReadBack_bytes_OK by simp
  have r1: "response_body (snd (ReadBack s)) = ''OK''"
    unfolding ReadBack_response_body n1 assms(2) ReadBack_bytes_OK by simp
  have f1: "fst (ReadBack s) = Some True"
    unfolding ReadBack_fst n1 by simp
  have f2: "fst (ReadBack (snd (ReadBack s))) = Some True"
    unfolding ReadBack_fst n2 by simp
  have o2: "ok (snd (ReadBack (snd (ReadBack s))))"
    using o1 ReadBack_ok[of "snd (ReadBack s)"] by simp
  have r2: "response_body (snd (ReadBack (snd (ReadBack s)))) = ''BAR''"
    unfolding ReadBack_response_body n2 b1 ReadBack_bytes_FOO_BAR by simp
  have b2: "buf (snd (ReadBack (snd (ReadBack s)))) = []"
    unfolding ReadBack_buf n2 b1 ReadBack_bytes_FOO_BAR by simp
  have scenario: "(let (r1, s1) = ReadBack s; (r2, s2) = ReadBack s1
          in r1 = Some True \<and> ok s1 \<and> response_body s1 = ''OK'' \<and> buf s1 = [] \<and>
             r2 = Some True \<and> ok s2 \<and> response_body s2 = ''BAR'' \<and> buf s2 = [])"
    using f1 o1 r1 b1 f2 o2 r2 b2 by (simp add: split_beta)
  have general: "LF \<notin> set pre \<longrightarrow>
            ReadBack_bytes (pre @ LF # rest) (rs, b) =
              ReadBack_bytes rest (rs @ [strip (b @ pre)], []) \<and>
            ReadBack_bytes pre (rs, b) = (rs, b @ pre)"
    by (simp add: ReadBack_bytes_line ReadBack_bytes_quiet_all)
  show ?thesis
    using scenario general ReadBack_bytes_FOO_BAR ReadBack_bytes_OK assms(2)
      fold_ReadBack_response_ok[of ls s'] fold_ReadBack_response_body[of ls s']
    by simp
qed

theorem ReadBack_lines_witness:
  "(let s = SunLCD_init (replicate 10 [] @ [''OK'' @ [LF], ''FOO'' @ [LF] @ ''BAR'' @ [LF]]) 240 320;
        (r1, s1) = ReadBack s; (r2, s2) = ReadBack s1
    in ok s = False \<and> buf s = [] \<and>
       incoming (ser s) = [''OK'' @ [LF], ''FOO'' @ [LF] @ ''BAR'' @ [LF]] \<and>
       ok s1 \<and> response_body s1 = ''OK'' \<and> response_body s2 = ''BAR'') \<and>
   ReadBack_bytes (''K'' @ LF # ''X'') ([], ''O'') = ([''OK''], ''X'')"
proof -
  let ?s = "SunLCD_init (replicate 10 [] @ [''OK'' @ [LF], ''FOO'' @ [LF] @ ''BAR'' @ [LF]]) 240 320"
  have h1: "ok ?s = False" by code_simp
  have h2: "buf ?s = []" by code_simp
  have h3: "incoming (ser ?s) = [''OK'' @ [LF], ''FOO'' @ [LF] @ ''BAR'' @ [LF]]" by code_simp
  have h4: "LF \<notin> set ''K''" by simp
  have e: "ReadBack_bytes ''X'' ([] @ [strip (''O'' @ ''K'')], []) = ([''OK''], ''X'')"
    by (simp add: strip_def is_space_def)
  show ?thesis
    using ReadBack_lines[OF h1 h2 h3, of "''K''" "''X''" "[]" "''O''"] h1 h2 h3 h4 e
    by (simp add: split_beta Let_def)
qed

section \<open>The command channel\<close>

lemma take_Cons_replicate: "k \<le> i \<Longrightarrow> take k (a # replicate i a) = replicate k a"
proof -
  assume "k \<le> i"
  have "take k (replicate (Suc i) a) = replicate (min k (Suc i)) a" by (rule take_replicate)
  with \<open>k \<le> i\<close> show ?thesis by (simp add: min_def)
qed

lemma polled_Suc:
  "incoming (ser s') = tl (incoming (ser s)) \<Longrightarrow>
   polled (Suc i) s = next_chunk s # polled i s'"
  unfolding polled_def next_chunk_def
  by (cases "incoming (ser s)") (simp_all add: min_def take_Cons_replicate)

lemma sleep_ser: "ser (sleep s) = (ser s)\<lparr>trace := trace (ser s) @ [Sleep]\<rparr>"
  by (simp add: sleep_def log_event_def)

lemma next_chunk_sleep: "next_chunk (sleep s) = next_chunk s"
  by (simp add: next_chunk_def sleep_ser)

lemma frame_sleep: "frame s (sleep s)"
  by (simp add: sleep_def frame_log_event)

lemma poll_step_incoming:
  "incoming (ser (snd (ReadBack (sleep s)))) = tl (incoming (ser s))"
  by (simp add: ReadBack_ser sleep_ser)

lemma poll_step_trace:
  "trace (ser (snd (ReadBack (sleep s)))) = trace (ser s) @ [Sleep, Poll]"
  by (simp add: ReadBack_ser sleep_ser)

lemma poll_step_fst:
  "fst (ReadBack (sleep s)) = (if LF \<in> set (next_chunk s) then Some True else None)"
  by (simp add: ReadBack_fst next_chunk_sleep)

lemma send_serial_loop_Suc:
  "send_serial_loop (Suc i) s =
     (if LF \<in> set (next_chunk s) then (True, snd (ReadBack (sleep s)))
      else send_serial_loop i (snd (ReadBack (sleep s))))"
proof -
  obtain res s2 where rb: "ReadBack (sleep s) = (res, s2)"
    by (cases "ReadBack (sleep s)")
  with poll_step_fst[of s] have "res = (if LF \<in> set (next_chunk s) then Some True else None)"
    by simp
  then show ?thesis by (auto simp: rb)
qed

declare send_serial_loop.simps(2) [simp del]

lemma send_serial_loop_fst:
  "fst (send_serial_loop i s) = (\<exists>c \<in> set (polled i s). LF \<in> set c)"
proof (induction i arbitrary: s)
  case 0
  show ?case by (simp add: polled_def)
next
  case (Suc i)
  show ?case
    unfolding send_serial_loop_Suc polled_Suc[OF poll_step_incoming[of s, symmetric, THEN sym]]
    using Suc.IH[of "snd (ReadBack (sleep s))"] by auto
qed

lemma send_serial_loop_trace:
  "trace (ser (snd (send_serial_loop i s))) =
     trace (ser s) @
     concat (replicate (min i (Suc (length (takeWhile (\<lambda>c. LF \<notin> set c) (polled i s)))))
               [Sleep, Poll])"
proof (induction i arbitrary: s)
  case 0
  show ?case by simp
next
  case (Suc i)
  show ?case
    unfolding send_serial_loop_Suc polled_Suc[OF poll_step_incoming[of s, symmetric, THEN sym]]
    using Suc.IH[of "snd (ReadBack (sleep s))"] by (simp add: poll_step_trace)
qed

lemma send_serial_loop_quiet:
  "\<not> fst (send_serial_loop i s) \<Longrightarrow>
   ok (snd (send_serial_loop i s)) = ok s \<and>
   response_body (snd (send_serial_loop i s)) = response_body s"
proof (induction i arbitrary: s)
  case 0
  show ?case by simp
next
  case (Suc i)
  from Suc.prems have q: "LF \<notin> set (next_chunk s)"
    by (auto simp: send_serial_loop_Suc split: if_splits)
  then have q': "LF \<notin> set (next_chunk (sleep s))" by (simp add: next_chunk_sleep)
  from Suc.prems q have "\<not> fst (send_serial_loop i (snd (ReadBack (sleep s))))"
    by (simp add: send_serial_loop_Suc)
  from Suc.IH[OF this] ReadBack_quiet[OF q'] q show ?case
    by (simp add: send_serial_loop_Suc sleep_def log_event_def)
qed

lemma send_serial_loop_frame: "frame s (snd (send_serial_loop i s))"
proof (induction i arbitrary: s)
  case 0
  show ?case by (simp add: frame_refl)
next
  case (Suc i)
  have "frame s (snd (ReadBack (sleep s)))"
    using frame_sleep ReadBack_frame by (rule frame_trans)
  with Suc.IH[of "snd (ReadBack (sleep s))"] show ?case
    by (auto simp: send_serial_loop_Suc intro: frame_trans)
qed

lemma send_serial_loop_baudrate: "baudrate (ser (snd (send_serial_loop i s))) = baudrate (ser s)"
  by (induction i arbitrary: s) (simp_all add: send_serial_loop_Suc ReadBack_ser sleep_ser)

lemma send_serial_unfold:
  "send_serial cmd s =
     send_serial_loop 10 (ser_write (cmd @ CRLF) (s\<lparr>ok := False, response_body := []\<rparr>))"
  by (simp add: send_serial_def Let_def)

lemma polled_ser_write: "polled i (ser_write b s) = polled i s"
  by (simp add: polled_def ser_write_def log_event_def)

lemma polled_upd: "polled i (s\<lparr>ok := a, response_body := t\<rparr>) = polled i s"
  by (simp add: polled_def)

lemma send_serial_fst: "fst (send_serial cmd s) = (\<exists>c \<in> set (polled 10 s). LF \<in> set c)"
  by (simp add: send_serial_unfold send_serial_loop_fst polled_ser_write polled_upd)

lemma send_serial_trace:
  "trace (ser (snd (send_serial cmd s))) =
     trace (ser s) @ Write (cmd @ CRLF) #
     concat (replicate (min 10 (Suc (length (takeWhile (\<lambda>c. LF \<notin> set c) (polled 10 s)))))
               [Sleep, Poll])"
  by (simp add: send_serial_unfold send_serial_loop_trace polled_ser_write polled_upd)
     (simp add: ser_write_def log_event_def)

lemma send_serial_timeout:
  "\<not> fst (send_serial cmd s) \<Longrightarrow>
   ok (snd (send_serial cmd s)) = False \<and> response_body (snd (send_serial cmd s)) = []"
  unfolding send_serial_unfold
  by (drule send_serial_loop_quiet) (simp add: ser_write_def log_event_def)

lemma send_serial_reset: "send_serial cmd (s\<lparr>ok := a, response_body := t\<rparr>) = send_serial cmd s"
  by (simp add: send_serial_unfold)

lemma send_serial_frame: "frame s (snd (send_serial cmd s))"
proof -
  have "frame s (ser_write (cmd @ CRLF) (s\<lparr>ok := False, response_body := []\<rparr>))"
    by (simp add: frame_def ser_write_def log_event_def)
  then show ?thesis
    unfolding send_serial_unfold using send_serial_loop_frame by (rule frame_trans)
qed

text \<open>
  Claim C1. \<open>send_serial\<close> returns a result for every command and session (it has no
  error outcome). It resets the acknowledgement flag and the status text before anything
  else, so its result does not depend on their previous values; it writes the command
  followed by CR LF, and then sleeps and polls \<open>n\<close> times in turn, where \<open>n\<close> is at most 10:
  it stops at the first poll that finds a line feed, whatever the line is, and returns
  \<open>True\<close>; when none of the 10 polls finds one it returns \<open>False\<close>, with the flag false and
  the status text empty.
\<close>

theorem send_serial_protocol:
  "let chunks = polled 10 s;
       n = min 10 (Suc (length (takeWhile (\<lambda>c. LF \<notin> set c) chunks)));
       r = send_serial cmd s
   in fst r = (\<exists>c \<in> set chunks. LF \<in> set c) \<and>
      1 \<le> n \<and> n \<le> 10 \<and>
      trace (ser (snd r)) =
        trace (ser s) @ Write (cmd @ CRLF) # concat (replicate n [Sleep, Poll]) \<and>
      (\<not> fst r \<longrightarrow> ok (snd r) = False \<and> response_body (snd r) = []) \<and>
      send_serial cmd (s\<lparr>ok := a, response_body := t\<rparr>) = r"
  unfolding Let_def
  using send_serial_fst[of cmd s] send_serial_trace[of cmd s] send_serial_timeout[of cmd s]
    send_serial_reset[of cmd t a s]
  by simp

theorem send_serial_protocol_witness:
  "(let s = SunLCD_init [] 240 320; r = send_serial ''VER'' s
    in \<not> fst r \<and> ok (snd r) = False \<and> response_body (snd r) = []) \<and>
   (let s = SunLCD_init [''OK'' @ [LF], ''OK'' @ [LF], [], ''ERR'' @ [LF]] 240 320;
        r = send_serial ''VER'' s
    in polled 10 s = [[], ''ERR'' @ [LF], [], [], [], [], [], [], [], []] \<and> fst r \<and>
       \<not> ok (snd r) \<and> response_body (snd r) = ''ERR'' \<and>
       drop (length (trace (ser s))) (trace (ser (snd r))) =
         [Write (''VER'' @ CRLF), Sleep, Poll, Sleep, Poll])"
proof -
  have a: "\<not> fst (send_serial ''VER'' (SunLCD_init [] 240 320))"
    by code_simp
  have b: "polled 10 (SunLCD_init [''OK'' @ [LF], ''OK'' @ [LF], [], ''ERR'' @ [LF]] 240 320)
           = [[], ''ERR'' @ [LF], [], [], [], [], [], [], [], []]"
    by code_simp
  have c: "\<not> ok (snd (send_serial ''VER'' (SunLCD_init [''OK'' @ [LF], ''OK'' @ [LF], [], ''ERR'' @ [LF]] 240 320)))
     \<and> response_body (snd (send_serial ''VER'' (SunLCD_init [''OK'' @ [LF], ''OK'' @ [LF], [], ''ERR'' @ [LF]] 240 320))) = ''ERR''"
    by code_simp
  show ?thesis
    using a b c send_serial_protocol[of "SunLCD_init [] 240 320" "''VER''"]
      send_serial_protocol[of "SunLCD_init [''OK'' @ [LF], ''OK'' @ [LF], [], ''ERR'' @ [LF]] 240 320" "''VER''"]
    by (simp add: Let_def)
qed

section \<open>Registration on a fresh session, and the backlight level\<close>

lemma SunLCD_init_frame:
  "cursor (SunLCD_init port width height) = (0, 0) \<and>
   img_list (SunLCD_init port width height) = [] \<and>
   img_offset (SunLCD_init port width height) = 2097152 \<and>
   font_list (SunLCD_init port width height) = [] \<and>
   current_orientation (SunLCD_init port width height) = VERTICAL \<and>
   standard_width (SunLCD_init port width height) = width \<and>
   standard_height (SunLCD_init port width height) = height"
proof -
  define s0 where "s0 = \<lparr>ser = \<lparr>incoming = port, trace = [Open], baudrate = 115200\<rparr>,
                ok = False, response_body = [], buf = [], cursor = (0, 0),
                img_list = [], img_offset = 2097152, font_list = [],
                current_orientation = VERTICAL,
                standard_width = width, standard_height = height\<rparr>"
  define s1 where "s1 = ser_write CRLF s0"
  define s2 where "s2 = snd (Reset s1)"
  define s3 where "s3 = snd (Background COLOR_BLACK s2)"
  have f1: "frame s0 s1" by (simp add: s1_def ser_write_def frame_log_event)
  have f2: "frame s1 s2" by (simp add: s2_def Reset_def send_serial_frame)
  have f3: "frame s2 s3" by (simp add: s3_def Background_def send_serial_frame)
  have "SunLCD_init port width height = (if fst (Reset s1) then s3 else s2)"
    by (simp add: SunLCD_init_def Let_def split_beta s0_def s1_def s2_def s3_def)
  moreover have "frame s0 s2" using f1 f2 by (rule frame_trans)
  moreover have "frame s0 s3" using \<open>frame s0 s2\<close> f3 by (rule frame_trans)
  ultimately have "frame s0 (SunLCD_init port width height)" by simp
  then show ?thesis by (simp add: frame_def s0_def)
qed

text \<open>
  Claim C4, as amended. On a freshly constructed session, whatever the port delivers and
  whatever the display dimensions, registering an image of size (16,16) returns image ID 0
  with memory address 2097152, and registering a second image of size (16,16) returns image
  ID 1 with memory address 2097664, which is 2097152 plus the 16*16*2 = 512 bytes of the
  first image; the memory cursor is then 2098176.
\<close>

theorem ListImage_fresh_session:
  "let s = SunLCD_init port width height;
       r1 = ListImage (16, 16) s;
       r2 = ListImage (16, 16) (snd r1)
   in fst r1 = 0 \<and> img_list (snd r1) ! fst r1 = (2097152, (16, 16)) \<and>
      fst r2 = 1 \<and> img_list (snd r2) ! fst r2 = (2097664, (16, 16)) \<and>
      img_list (snd r2) = [(2097152, (16, 16)), (2097664, (16, 16))] \<and>
      img_offset (snd r2) = 2098176"
  using SunLCD_init_frame[of port width height]
  by (simp add: Let_def ListImage_def)

text \<open>
  Claim C4 as stated fails: on a fresh session the second image of size (16,16) has image
  ID 1, and its address is not 2097168.
\<close>

theorem ListImage_second_address_counterexample:
  "fst (ListImage (16, 16) (snd (ListImage (16, 16) (SunLCD_init [] 240 320)))) = 1 \<and>
   fst (img_list (snd (ListImage (16, 16) (snd (ListImage (16, 16) (SunLCD_init [] 240 320))))) ! 1)
     \<noteq> 2097168"
  using SunLCD_init_frame[of "[]" 240 320]
  by (simp add: Let_def ListImage_def)

lemma writes_of_append: "writes_of (xs @ ys) = writes_of xs @ writes_of ys"
  by (induction xs rule: writes_of.induct) simp_all

lemma writes_of_polls: "writes_of (concat (replicate n [Sleep, Poll])) = []"
  by (induction n) simp_all

lemma send_serial_writes:
  "writes_of (trace (ser (snd (send_serial cmd s)))) = writes_of (trace (ser s)) @ [cmd @ CRLF]"
  by (simp add: send_serial_trace writes_of_append writes_of_polls)

lemma str_int_255: "str_int 255 = ''255''" by (simp add: str_int_eval)
lemma str_int_0: "str_int 0 = ''0''" by (simp add: str_int_eval)
lemma str_int_127: "str_int 127 = ''127''" by (simp add: str_int_eval)

subsection \<open>Double-precision arithmetic and the backlight level\<close>

lemmas floor_numeral_div =
  floor_divide_of_int_eq[where k="numeral a" and l="numeral b" for a b, unfolded of_int_numeral]

lemmas ceiling_numeral_div =
  ceiling_divide_eq_div[where a="numeral a" and b="numeral b" for a b, unfolded of_int_numeral]

lemma b64_round_eval:
  assumes "x \<noteq> 0" and "floor_log2 \<bar>x\<bar> = e" and "max (e - 52) (- 1074) = u"
    and "round_half_even (\<bar>x\<bar> / pow2 u) = m" and "of_int m * pow2 u = v"
  shows "b64_round x = (if pow2 1024 \<le> v then Infinite else Finite (if x < 0 then - v else v))"
  unfolding b64_round_def Let_def if_not_P[OF assms(1)] assms(2) assms(3) assms(4) assms(5)
  by (rule refl)

lemma bitlen_0: "bitlen 0 = 0" by (simp add: bitlen.simps)
lemma bitlen_1: "bitlen 1 = 1" by (simp add: bitlen.simps)
lemma bitlen_2: "bitlen 2 = 2" by (simp add: bitlen.simps)
lemma bitlen_127: "bitlen 127 = 7" by (simp add: bitlen.simps)
lemma bitlen_255: "bitlen 255 = 8" by (simp add: bitlen.simps)
lemma bitlen_510: "bitlen 510 = 9" by (simp add: bitlen.simps)

lemma pow2_1024_large: "v < 2 ^ 100 \<Longrightarrow> \<not> pow2 1024 \<le> v"
proof -
  assume "v < 2 ^ 100"
  moreover have "(2::rat) ^ 100 \<le> 2 ^ 1024" by (rule power_increasing) simp_all
  ultimately show ?thesis by (simp add: pow2_def)
qed

lemma b64_round_1: "b64_round 1 = Finite 1"
proof -
  have "b64_round 1 = (if pow2 1024 \<le> 1 then Infinite else Finite (if (1::rat) < 0 then - 1 else 1))"
    by (rule b64_round_eval[where e=0 and u="- 52" and m="2 ^ 52"])
       (simp_all add: floor_log2_def bitlen_1 pow2_def round_half_even_def Let_def)
  then show ?thesis using pow2_1024_large[of 1] by simp
qed

lemma bitlen_nonneg: "0 \<le> bitlen n"
proof (induction n rule: bitlen.induct)
  case (1 n)
  show ?case
  proof (cases "n \<le> 0")
    case True
    then show ?thesis by (simp add: bitlen.simps)
  next
    case False
    with "1.IH" show ?thesis by (subst bitlen.simps) simp
  qed
qed

lemma bitlen_bound: "n < 2 ^ k \<Longrightarrow> bitlen n \<le> int k"
proof (induction k arbitrary: n)
  case 0
  then have "n \<le> 0" by simp
  then show ?case by (simp add: bitlen.simps)
next
  case (Suc k)
  show ?case
  proof (cases "n \<le> 0")
    case True
    then show ?thesis by (simp add: bitlen.simps)
  next
    case False
    from Suc.prems have "n div 2 < 2 ^ k" by simp
    from Suc.IH[OF this] False show ?thesis by (subst bitlen.simps) simp
  qed
qed

lemma round_half_even_le: "x \<le> of_int n \<Longrightarrow> round_half_even x \<le> n"
proof -
  assume le: "x \<le> of_int n"
  then have f: "\<lfloor>x\<rfloor> \<le> n" by (simp add: floor_le_iff) 
  show ?thesis
  proof (cases "x = of_int \<lfloor>x\<rfloor>")
    case True
    then have "x - of_int \<lfloor>x\<rfloor> = 0" by simp
    then have "round_half_even x = \<lfloor>x\<rfloor>" by (simp add: round_half_even_def Let_def)
    with f show ?thesis by simp
  next
    case False
    have "x \<noteq> of_int n"
    proof
      assume "x = of_int n"
      then have "of_int \<lfloor>x\<rfloor> = x" by simp
      with False show False by simp
    qed
    with le have "x < of_int n" by simp
    then have "\<lfloor>x\<rfloor> < n" by (simp add: floor_less_iff)
    then have "\<lfloor>x\<rfloor> + 1 \<le> n" by simp
    moreover have "round_half_even x \<le> \<lfloor>x\<rfloor> + 1"
      by (simp add: round_half_even_def Let_def)
    ultimately show ?thesis by simp
  qed
qed

lemma round_half_even_ge: "of_int n \<le> x \<Longrightarrow> n \<le> round_half_even x"
proof -
  assume "of_int n \<le> x"
  then have "n \<le> \<lfloor>x\<rfloor>" by (simp add: le_floor_iff)
  moreover have "\<lfloor>x\<rfloor> \<le> round_half_even x"
    by (simp add: round_half_even_def Let_def)
  ultimately show ?thesis by simp
qed

lemma floor_log2_bound:
  assumes "0 < a" and "a < 2 ^ 53"
  shows "floor_log2 a \<le> 52"
proof (cases "1 \<le> a")
  case True
  from assms(2) have "\<lfloor>a\<rfloor> < 2 ^ 53"
    by (metis floor_less_iff of_int_numeral of_int_power)
  from bitlen_bound[OF this] True show ?thesis by (simp add: floor_log2_def)
next
  case False
  with bitlen_nonneg[of "\<lceil>1 / a\<rceil> - 1"] show ?thesis by (simp add: floor_log2_def)
qed

lemma b64_round_range:
  assumes "0 \<le> x" and "x \<le> of_int N" and "N < 2 ^ 53"
  shows "\<exists>v. b64_round x = Finite v \<and> 0 \<le> v \<and> v \<le> of_int N"
proof (cases "x = 0")
  case True
  with assms(2) show ?thesis by (simp add: b64_round_def)
next
  case False
  with assms(1) have pos: "0 < x" by simp
  have "of_int N < (2::rat) ^ 53"
    using assms(3) by (metis of_int_less_iff of_int_numeral of_int_power)
  with assms(2) have "x < 2 ^ 53" by simp
  from floor_log2_bound[OF pos this] have e: "floor_log2 x \<le> 52" .
  define u where "u = max (floor_log2 x - 52) (- 1074)"
  define k where "k = nat (- u)"
  from e have u0: "u \<le> 0" by (simp add: u_def)
  then have p: "pow2 u = 1 / 2 ^ k"
    by (cases "u = 0") (simp_all add: pow2_def k_def)
  define m where "m = round_half_even (x / pow2 u)"
  have scaled: "x / pow2 u = x * 2 ^ k" by (simp add: p)
  have "x * 2 ^ k \<le> of_int (N * 2 ^ k)" using assms(2) by simp
  then have m_le: "m \<le> N * 2 ^ k"
    unfolding m_def scaled by (rule round_half_even_le)
  have "of_int 0 \<le> x * 2 ^ k" using assms(1) by simp
  then have m_ge: "0 \<le> m"
    unfolding m_def scaled by (rule round_half_even_ge)
  define v where "v = of_int m * pow2 u"
  have v_eq: "v = of_int m / 2 ^ k" by (simp add: v_def p)
  have v_ge: "0 \<le> v" using m_ge by (simp add: v_eq)
  have "(of_int m :: rat) \<le> of_int (N * 2 ^ k)" using m_le by (simp only: of_int_le_iff)
  then have v_le: "v \<le> of_int N" by (simp add: v_eq divide_le_eq)
  have "v < 2 ^ 100"
  proof -
    have "v < (2::rat) ^ 53" using v_le \<open>of_int N < (2::rat) ^ 53\<close> by simp
    also have "\<dots> \<le> 2 ^ 100" by (rule power_increasing) simp_all
    finally show ?thesis .
  qed
  then have fin: "\<not> pow2 1024 \<le> v" by (rule pow2_1024_large)
  have ax: "\<bar>x\<bar> = x" using pos by simp
  have "b64_round x = (if pow2 1024 \<le> v then Infinite else Finite (if x < 0 then - v else v))"
    by (rule b64_round_eval[where e="floor_log2 x" and u=u and m=m])
       (simp_all add: False ax u_def m_def v_def)
  with fin pos have "b64_round x = Finite v" by simp
  with v_ge v_le show ?thesis by blast
qed

lemma pow2_power_int: "pow2 e = power_int 2 e"
  by (simp add: pow2_def power_int_def field_simps)

lemma pow2_pos: "0 < pow2 e"
  by (simp add: pow2_power_int zero_less_power_int)

lemma pow2_mono: "u \<le> w \<Longrightarrow> pow2 u \<le> pow2 w"
  by (simp add: pow2_power_int power_int_increasing)

lemma pow2_add: "pow2 (a + b) = pow2 a * pow2 b"
  by (simp add: pow2_power_int power_int_add)

lemma pow2_nat: "pow2 (int k) = 2 ^ k"
  by (simp add: pow2_def)

lemma pow2_neg_nat: "pow2 (- int k) = 1 / 2 ^ k"
  by (cases "k = 0") (simp_all add: pow2_def)

lemma round_half_even_err: "\<bar>of_int (round_half_even y) - y\<bar> \<le> 1 / 2"
proof -
  have "of_int \<lfloor>y\<rfloor> \<le> y" "y < of_int \<lfloor>y\<rfloor> + 1" by linarith+
  then show ?thesis
    by (auto simp add: round_half_even_def Let_def abs_le_iff)
qed

lemma bitlen_pos: "1 \<le> n \<Longrightarrow> 1 \<le> bitlen n"
  using bitlen_nonneg[of "n div 2"] by (subst bitlen.simps) simp

lemma bitlen_lower: "1 \<le> n \<Longrightarrow> 2 ^ nat (bitlen n - 1) \<le> n"
proof (induction n rule: bitlen.induct)
  case (1 n)
  show ?case
  proof (cases "n = 1")
    case True
    then show ?thesis by (simp add: bitlen_1)
  next
    case False
    with "1.prems" have h: "1 \<le> n div 2" by simp
    from "1.prems" have "\<not> n \<le> 0" by simp
    from "1.IH"[OF this h] have ih: "2 ^ nat (bitlen (n div 2) - 1) \<le> n div 2" .
    have b: "bitlen n = 1 + bitlen (n div 2)" using "1.prems" by (subst bitlen.simps) simp
    have "nat (bitlen n - 1) = Suc (nat (bitlen (n div 2) - 1))"
      using bitlen_pos[OF h] by (simp add: b)
    then have "(2::int) ^ nat (bitlen n - 1) = 2 * 2 ^ nat (bitlen (n div 2) - 1)" by simp
    also have "\<dots> \<le> 2 * (n div 2)" using ih by simp
    also have "\<dots> \<le> n" by simp
    finally show ?thesis .
  qed
qed

lemma bitlen_upper: "n < 2 ^ nat (bitlen n)"
proof (induction n rule: bitlen.induct)
  case (1 n)
  show ?case
  proof (cases "n \<le> 0")
    case True
    have "(0::int) < 2 ^ nat (bitlen n)" by simp
    with True show ?thesis by linarith
  next
    case False
    from "1.IH"[OF False] have ih: "n div 2 < 2 ^ nat (bitlen (n div 2))" .
    have b: "bitlen n = 1 + bitlen (n div 2)" using False by (subst bitlen.simps) simp
    have "nat (bitlen n) = Suc (nat (bitlen (n div 2)))"
      using bitlen_nonneg[of "n div 2"] by (simp add: b)
    then have "(2::int) ^ nat (bitlen n) = 2 * 2 ^ nat (bitlen (n div 2))" by simp
    moreover have "n < 2 * (n div 2 + 1)" by presburger
    ultimately show ?thesis using ih by linarith
  qed
qed

text \<open>floor_log2 is the binary exponent.\<close>

lemma floor_log2_spec:
  assumes "0 < a"
  shows "pow2 (floor_log2 a) \<le> a \<and> a < pow2 (floor_log2 a + 1)"
proof (cases "1 \<le> a")
  case True
  define n where "n = \<lfloor>a\<rfloor>"
  have n1: "1 \<le> n" using True by (simp add: n_def le_floor_iff)
  have e: "floor_log2 a = bitlen n - 1" using True by (simp add: floor_log2_def n_def)
  have b1: "1 \<le> bitlen n" using n1 by (rule bitlen_pos)
  have "pow2 (bitlen n - 1) = 2 ^ nat (bitlen n - 1)" using b1 by (simp add: pow2_def)
  also have "\<dots> = of_int (2 ^ nat (bitlen n - 1))" by simp
  also have "\<dots> \<le> of_int n" using bitlen_lower[OF n1] by (simp only: of_int_le_iff)
  also have "\<dots> \<le> a" by (simp add: n_def)
  finally have lo: "pow2 (floor_log2 a) \<le> a" by (simp add: e)
  have "n + 1 \<le> 2 ^ nat (bitlen n)" using bitlen_upper[of n] by simp
  then have "(of_int (n + 1) :: rat) \<le> of_int (2 ^ nat (bitlen n))" by (simp only: of_int_le_iff)
  moreover have "a < of_int (n + 1)" unfolding n_def by linarith
  ultimately have "a < of_int (2 ^ nat (bitlen n))" by simp
  moreover have "pow2 (bitlen n - 1 + 1) = 2 ^ nat (bitlen n)" using b1 by (simp add: pow2_def)
  ultimately have "a < pow2 (floor_log2 a + 1)" by (simp add: e)
  with lo show ?thesis by simp
next
  case False
  then have a1: "a < 1" by simp
  define c where "c = \<lceil>1 / a\<rceil> - 1"
  have inv: "1 < 1 / a" using assms a1 by simp
  then have "2 \<le> \<lceil>1 / a\<rceil>" by (simp add: le_ceiling_iff) 
  then have c1: "1 \<le> c" by (simp add: c_def)
  have clt: "of_int c < 1 / a" unfolding c_def by linarith
  have cge: "1 / a \<le> of_int (c + 1)" unfolding c_def by simp
  have e: "floor_log2 a = - bitlen c" using False by (simp add: floor_log2_def c_def)
  define b where "b = nat (bitlen c)"
  have b1: "1 \<le> bitlen c" using c1 by (rule bitlen_pos)
  then have bb: "bitlen c = int b" "1 \<le> b" by (simp_all add: b_def)
  have "c + 1 \<le> 2 ^ b" using bitlen_upper[of c] by (simp add: b_def)
  then have "(of_int (c + 1) :: rat) \<le> of_int (2 ^ b)" by (simp only: of_int_le_iff)
  with cge have "1 / a \<le> 2 ^ b" by simp
  then have "1 \<le> 2 ^ b * a" using assms by (simp add: field_simps)
  then have lo: "1 / 2 ^ b \<le> a" by (simp add: field_simps)
  have "2 ^ nat (bitlen c - 1) \<le> c" using c1 by (rule bitlen_lower)
  moreover have "nat (bitlen c - 1) = b - 1" by (simp add: b_def)
  ultimately have "2 ^ (b - 1) \<le> c" by simp
  then have "(of_int (2 ^ (b - 1)) :: rat) \<le> of_int c" by (simp only: of_int_le_iff)
  then have "(of_int (2 ^ (b - 1)) :: rat) < 1 / a" using clt by (rule le_less_trans)
  then have "2 ^ (b - 1) < 1 / a" by simp
  then have "2 ^ (b - 1) * a < 1" using assms by (simp add: field_simps)
  then have hi: "a < 1 / 2 ^ (b - 1)" by (simp add: field_simps)
  have "- int b + 1 = - int (b - 1)" using bb(2) by simp
  then have "pow2 (floor_log2 a + 1) = 1 / 2 ^ (b - 1)"
    by (simp only: e bb(1) pow2_neg_nat)
  moreover have "pow2 (floor_log2 a) = 1 / 2 ^ b" by (simp only: e bb(1) pow2_neg_nat)
  ultimately show ?thesis using lo hi by simp
qed

lemma floor_log2_upper:
  assumes "0 < a" and "a < 2 ^ Suc k"
  shows "floor_log2 a \<le> int k"
proof (rule ccontr)
  assume "\<not> floor_log2 a \<le> int k"
  then have "int (Suc k) \<le> floor_log2 a" by simp
  then have "pow2 (int (Suc k)) \<le> pow2 (floor_log2 a)" by (rule pow2_mono)
  also have "\<dots> \<le> a" using floor_log2_spec[OF assms(1)] by simp
  finally show False using assms(2) by (simp only: pow2_nat)
qed

text \<open>The value that rounding a positive number delivers.\<close>

lemma b64_round_pos:
  assumes "0 < x" and "b64_round x = Finite v"
  shows "v = of_int (round_half_even (x / pow2 (max (floor_log2 x - 52) (- 1074)))) *
             pow2 (max (floor_log2 x - 52) (- 1074))"
  using assms by (simp add: b64_round_def Let_def split: if_splits)

lemma b64_round_nonpos:
  assumes "x \<le> 0" and "b64_round x = Finite v"
  shows "v \<le> 0"
proof (cases "x = 0")
  case True
  with assms(2) show ?thesis by (simp add: b64_round_def)
next
  case False
  with assms(1) have neg: "x < 0" by simp
  define u where "u = max (floor_log2 \<bar>x\<bar> - 52) (- 1074)"
  have "of_int 0 \<le> \<bar>x\<bar> / pow2 u" using pow2_pos[of u] by simp
  then have "0 \<le> round_half_even (\<bar>x\<bar> / pow2 u)" by (rule round_half_even_ge)
  then have "0 \<le> of_int (round_half_even (\<bar>x\<bar> / pow2 u)) * pow2 u"
    using pow2_pos[of u] by simp
  moreover have "v = - (of_int (round_half_even (\<bar>x\<bar> / pow2 u)) * pow2 u)"
    using assms(2) neg False by (simp add: b64_round_def Let_def u_def split: if_splits)
  ultimately show ?thesis by simp
qed

text \<open>Rounding a number between 0 and an integer below 2^(k+1), k at most 52.\<close>

lemma b64_round_bounds:
  assumes "0 \<le> x" and "x \<le> of_int N" and "N < 2 ^ Suc k" and "k \<le> 52"
  shows "\<exists>v. b64_round x = Finite v \<and> 0 \<le> v \<and> v \<le> of_int N \<and>
             \<bar>v - x\<bar> \<le> 1 / 2 ^ (53 - k)"
proof (cases "x = 0")
  case True
  with assms(2) show ?thesis by (simp add: b64_round_def)
next
  case False
  with assms(1) have pos: "0 < x" by simp
  have "(2::int) ^ Suc k \<le> 2 ^ 53" using assms(4) by (intro power_increasing) simp_all
  with assms(3) have N53: "N < 2 ^ 53" by simp
  from b64_round_range[OF assms(1) assms(2) N53]
  obtain v where v: "b64_round x = Finite v" "0 \<le> v" "v \<le> of_int N" by blast
  define u where "u = max (floor_log2 x - 52) (- 1074)"
  define m where "m = round_half_even (x / pow2 u)"
  have veq: "v = of_int m * pow2 u"
    using b64_round_pos[OF pos v(1)] by (simp add: u_def m_def)
  have "of_int N < (2::rat) ^ Suc k"
    using assms(3) by (metis of_int_less_iff of_int_numeral of_int_power)
  with assms(2) have "x < 2 ^ Suc k" by simp
  from floor_log2_upper[OF pos this] have "floor_log2 x \<le> int k" .
  then have "u \<le> int k - 52" by (simp add: u_def)
  then have "pow2 u \<le> pow2 (int k - 52)" by (rule pow2_mono)
  moreover have "int k - 52 = - int (52 - k)" using assms(4) by simp
  ultimately have pu: "pow2 u \<le> 1 / 2 ^ (52 - k)" by (simp only: pow2_neg_nat)
  have "v - x = (of_int m - x / pow2 u) * pow2 u"
    using pow2_pos[of u] by (simp add: veq field_simps)
  then have "\<bar>v - x\<bar> = \<bar>of_int m - x / pow2 u\<bar> * pow2 u"
    using pow2_pos[of u] by (simp add: abs_mult)
  also have "\<dots> \<le> 1 / 2 * pow2 u"
    using round_half_even_err[of "x / pow2 u"] pow2_pos[of u]
    by (intro mult_right_mono) (simp_all add: m_def)
  also have "\<dots> \<le> 1 / 2 * (1 / 2 ^ (52 - k))" using pu by simp
  also have "\<dots> = 1 / 2 ^ Suc (52 - k)" by simp
  also have "Suc (52 - k) = 53 - k" using assms(4) by simp
  finally have "\<bar>v - x\<bar> \<le> 1 / 2 ^ (53 - k)" .
  with v show ?thesis by blast
qed

text \<open>Rounding does not go below a positive integer under 2^53 that the number reaches.\<close>

lemma b64_round_lower:
  assumes "of_int N \<le> x" and "0 < N" and "N < 2 ^ 53" and "b64_round x = Finite v"
  shows "of_int N \<le> v"
proof -
  have N1: "(1::rat) \<le> of_int N" using assms(2) by simp
  with assms(1) have x1: "1 \<le> x" by simp
  then have pos: "0 < x" by simp
  define u where "u = max (floor_log2 x - 52) (- 1074)"
  define m where "m = round_half_even (x / pow2 u)"
  have veq: "v = of_int m * pow2 u"
    using b64_round_pos[OF pos assms(4)] by (simp add: u_def m_def)
  show ?thesis
  proof (cases "u \<le> 0")
    case True
    define k where "k = nat (- u)"
    have p: "pow2 u = 1 / 2 ^ k" using True pow2_neg_nat[of k] by (simp add: k_def)
    have "of_int (N * 2 ^ k) \<le> x * 2 ^ k" using assms(1) by simp
    then have "of_int (N * 2 ^ k) \<le> x / pow2 u" by (simp add: p)
    then have "N * 2 ^ k \<le> m" unfolding m_def by (rule round_half_even_ge)
    then have "(of_int (N * 2 ^ k) :: rat) \<le> of_int m" by (simp only: of_int_le_iff)
    then show ?thesis by (simp add: veq p le_divide_eq)
  next
    case False
    then have u: "u = floor_log2 x - 52" "0 < u" by (simp_all add: u_def max_def split: if_splits)
    have "pow2 (floor_log2 x) \<le> x" using floor_log2_spec[OF pos] by simp
    moreover have "pow2 (floor_log2 x) = pow2 u * pow2 52"
      using pow2_add[of u 52] by (simp add: u(1))
    moreover have "pow2 52 = 2 ^ 52" using pow2_nat[of 52] by simp
    ultimately have "pow2 u * 2 ^ 52 \<le> x" by simp
    then have "of_int (2 ^ 52) \<le> x / pow2 u" using pow2_pos[of u] by (simp add: le_divide_eq mult.commute)
    then have "2 ^ 52 \<le> m" unfolding m_def by (rule round_half_even_ge)
    then have m52: "(of_int (2 ^ 52) :: rat) \<le> of_int m" by (simp only: of_int_le_iff)
    have "pow2 1 \<le> pow2 u" using u(2) by (intro pow2_mono) simp
    then have p1: "2 \<le> pow2 u" by (simp add: pow2_def)
    have "(of_int N :: rat) < of_int (2 ^ 53)" using assms(3) by (simp only: of_int_less_iff)
    also have "\<dots> = of_int (2 ^ 52) * 2" by simp
    also have "\<dots> \<le> of_int m * pow2 u"
      using m52 p1 by (intro mult_mono) simp_all
    finally show ?thesis by (simp add: veq)
  qed
qed

lemma b64_round_small:
  assumes "x \<noteq> 0" and "floor_log2 \<bar>x\<bar> = e" and "max (e - 52) (- 1074) = u"
    and "round_half_even (\<bar>x\<bar> / pow2 u) = m" and "of_int m * pow2 u = v" and "v < 2 ^ 100"
  shows "b64_round x = Finite (if x < 0 then - v else v)"
  using b64_round_eval[OF assms(1-5)] pow2_1024_large[OF assms(6)] by simp

lemma bitlen_5: "bitlen 5 = 3" by (simp add: bitlen.simps)
lemma bitlen_4: "bitlen 4 = 3" by (simp add: bitlen.simps)
lemma bitlen_50: "bitlen 50 = 6" by (simp add: bitlen.simps)
lemma bitlen_152: "bitlen 152 = 8" by (simp add: bitlen.simps)
lemma bitlen_204: "bitlen 204 = 8" by (simp add: bitlen.simps)

lemmas b64_eval = floor_log2_def pow2_def round_half_even_def Let_def
  floor_numeral_div ceiling_numeral_div
  bitlen_0 bitlen_1 bitlen_2 bitlen_4 bitlen_5 bitlen_50 bitlen_127 bitlen_152 bitlen_204
  bitlen_255 bitlen_510

lemma b64_round_255: "b64_round 255 = Finite 255"
proof -
  have "b64_round 255 = Finite (if (255::rat) < 0 then - 255 else 255)"
    by (rule b64_round_small[where e=7 and u="- 45" and m="255 * 2 ^ 45"])
       (simp_all add: b64_eval)
  then show ?thesis by simp
qed

lemma b64_round_half: "b64_round (1 / 2) = Finite (1 / 2)"
proof -
  have "b64_round (1 / 2) = Finite (if (1 / 2::rat) < 0 then - (1 / 2) else 1 / 2)"
    by (rule b64_round_small[where e="- 1" and u="- 53" and m="2 ^ 52"])
       (simp_all add: b64_eval)
  then show ?thesis by simp
qed

lemma b64_round_255_2: "b64_round (255 / 2) = Finite (255 / 2)"
proof -
  have "b64_round (255 / 2) = Finite (if (255 / 2::rat) < 0 then - (255 / 2) else 255 / 2)"
    by (rule b64_round_small[where e=6 and u="- 46" and m="255 * 2 ^ 45"])
       (simp_all add: b64_eval)
  then show ?thesis by simp
qed

lemma b64_round_minus_1: "b64_round (- 1) = Finite (- 1)"
proof -
  have "b64_round (- 1) = Finite (if (- 1::rat) < 0 then - 1 else 1)"
    by (rule b64_round_small[where e=0 and u="- 52" and m="2 ^ 52"])
       (simp_all add: b64_eval)
  then show ?thesis by simp
qed

lemma b64_round_2: "b64_round 2 = Finite 2"
proof -
  have "b64_round 2 = Finite (if (2::rat) < 0 then - 2 else 2)"
    by (rule b64_round_small[where e=1 and u="- 51" and m="2 ^ 52"])
       (simp_all add: b64_eval)
  then show ?thesis by simp
qed

lemma b64_round_510: "b64_round 510 = Finite 510"
proof -
  have "b64_round 510 = Finite (if (510::rat) < 0 then - 510 else 510)"
    by (rule b64_round_small[where e=8 and u="- 44" and m="510 * 2 ^ 44"])
       (simp_all add: b64_eval)
  then show ?thesis by simp
qed

lemma b64_round_4_5: "b64_round (4 / 5) = Finite (3602879701896397 / 4503599627370496)"
proof -
  have "b64_round (4 / 5) = Finite (if (4 / 5::rat) < 0 then - (3602879701896397 / 4503599627370496)
      else 3602879701896397 / 4503599627370496)"
    by (rule b64_round_small[where e="- 1" and u="- 53" and m=7205759403792794])
       (simp_all add: b64_eval)
  then show ?thesis by simp
qed

lemma b64_round_4_5_d: "b64_round (900719925474099 / 4503599627370496) = Finite (900719925474099 / 4503599627370496)"
proof -
  have "b64_round (900719925474099 / 4503599627370496) = Finite (if (900719925474099 / 4503599627370496::rat) < 0 then - (900719925474099 / 4503599627370496) else 900719925474099 / 4503599627370496)"
    by (rule b64_round_small[where e="- 3" and u="- 55" and m="7205759403792792"])
       (simp_all add: b64_eval)
  then show ?thesis by simp
qed

lemma b64_round_4_5_p: "b64_round (229683580995895245 / 4503599627370496) = Finite (3588805953060863 / 70368744177664)"
proof -
  have "b64_round (229683580995895245 / 4503599627370496) = Finite (if (229683580995895245 / 4503599627370496::rat) < 0 then - (3588805953060863 / 70368744177664) else 3588805953060863 / 70368744177664)"
    by (rule b64_round_small[where e="5" and u="- 47" and m="7177611906121726"])
       (simp_all add: b64_eval)
  then show ?thesis by simp
qed

lemma b64_round_2_5: "b64_round (2 / 5) = Finite (3602879701896397 / 9007199254740992)"
proof -
  have "b64_round (2 / 5) = Finite (if (2 / 5::rat) < 0 then - (3602879701896397 / 9007199254740992) else 3602879701896397 / 9007199254740992)"
    by (rule b64_round_small[where e="- 2" and u="- 54" and m="7205759403792794"])
       (simp_all add: b64_eval)
  then show ?thesis by simp
qed

lemma b64_round_2_5_d: "b64_round (5404319552844595 / 9007199254740992) = Finite (5404319552844595 / 9007199254740992)"
proof -
  have "b64_round (5404319552844595 / 9007199254740992) = Finite (if (5404319552844595 / 9007199254740992::rat) < 0 then - (5404319552844595 / 9007199254740992) else 5404319552844595 / 9007199254740992)"
    by (rule b64_round_small[where e="- 1" and u="- 53" and m="5404319552844595"])
       (simp_all add: b64_eval)
  then show ?thesis by simp
qed

lemma b64_round_2_5_p: "b64_round (1378101485975371725 / 9007199254740992) = Finite (153)"
proof -
  have "b64_round (1378101485975371725 / 9007199254740992) = Finite (if (1378101485975371725 / 9007199254740992::rat) < 0 then - (153) else 153)"
    by (rule b64_round_small[where e="7" and u="- 45" and m="5383208929591296"])
       (simp_all add: b64_eval)
  then show ?thesis by simp
qed

lemma b64_round_1_5: "b64_round (1 / 5) = Finite (3602879701896397 / 18014398509481984)"
proof -
  have "b64_round (1 / 5) = Finite (if (1 / 5::rat) < 0 then - (3602879701896397 / 18014398509481984) else 3602879701896397 / 18014398509481984)"
    by (rule b64_round_small[where e="- 3" and u="- 55" and m="7205759403792794"])
       (simp_all add: b64_eval)
  then show ?thesis by simp
qed

lemma b64_round_1_5_d: "b64_round (14411518807585587 / 18014398509481984) = Finite (3602879701896397 / 4503599627370496)"
proof -
  have "b64_round (14411518807585587 / 18014398509481984) = Finite (if (14411518807585587 / 18014398509481984::rat) < 0 then - (3602879701896397 / 4503599627370496) else 3602879701896397 / 4503599627370496)"
    by (rule b64_round_small[where e="- 1" and u="- 53" and m="7205759403792794"])
       (simp_all add: b64_eval)
  then show ?thesis by simp
qed

lemma b64_round_1_5_p: "b64_round (918734323983581235 / 4503599627370496) = Finite (204)"
proof -
  have "b64_round (918734323983581235 / 4503599627370496) = Finite (if (918734323983581235 / 4503599627370496::rat) < 0 then - (204) else 204)"
    by (rule b64_round_small[where e="7" and u="- 45" and m="7177611906121728"])
       (simp_all add: b64_eval)
  then show ?thesis by simp
qed


lemma Brightness_product_0: "Brightness_product 0 = Finite 255"
  by (simp add: Brightness_product_def b64_round_def[of 0] b64_round_1 b64_round_255)

lemma Brightness_product_1: "Brightness_product 1 = Finite 0"
  by (simp add: Brightness_product_def b64_round_1 b64_round_def[of 0])

lemma Brightness_product_half: "Brightness_product (1 / 2) = Finite (255 / 2)"
  by (simp add: Brightness_product_def b64_round_half b64_round_255_2)

lemma Brightness_product_minus_1: "Brightness_product (- 1) = Finite 510"
  by (simp add: Brightness_product_def b64_round_minus_1 b64_round_2 b64_round_510)

lemma Brightness_product_4_5: "Brightness_product (4 / 5) = Finite (3588805953060863 / 70368744177664)"
  by (simp add: Brightness_product_def b64_round_4_5 b64_round_4_5_d b64_round_4_5_p)

lemma Brightness_product_2_5: "Brightness_product (2 / 5) = Finite 153"
  by (simp add: Brightness_product_def b64_round_2_5 b64_round_2_5_d b64_round_2_5_p)

lemma Brightness_product_1_5: "Brightness_product (1 / 5) = Finite 204"
  by (simp add: Brightness_product_def b64_round_1_5 b64_round_1_5_d b64_round_1_5_p)

lemma bitlen_eq:
  assumes "2 ^ k \<le> n" and "n < 2 ^ Suc k"
  shows "bitlen n = int (Suc k)"
proof -
  have "(1::int) \<le> 2 ^ k" by simp
  with assms(1) have n1: "1 \<le> n" by linarith
  have b1: "1 \<le> bitlen n" using n1 by (rule bitlen_pos)
  have "(2::int) ^ nat (bitlen n - 1) < 2 ^ Suc k"
    using bitlen_lower[OF n1] assms(2) by linarith
  then have "nat (bitlen n - 1) < Suc k" by (simp only: power_strict_increasing_iff one_less_numeral_iff semiring_norm)
  moreover have "(2::int) ^ k < 2 ^ nat (bitlen n)"
    using bitlen_upper[of n] assms(1) by linarith
  then have "k < nat (bitlen n)" by (simp only: power_strict_increasing_iff one_less_numeral_iff semiring_norm)
  ultimately show ?thesis using b1 by linarith
qed

lemma b64_round_overflow:
  assumes "x \<noteq> 0" and "floor_log2 \<bar>x\<bar> = e" and "max (e - 52) (- 1074) = u"
    and "round_half_even (\<bar>x\<bar> / pow2 u) = m" and "2 ^ 1024 \<le> of_int m * pow2 u"
  shows "b64_round x = Infinite"
  using b64_round_eval[OF assms(1-4) refl] assms(5) by (simp add: pow2_def)

lemma bitlen_1e306: "bitlen (10 ^ 306) = 1017"
  using bitlen_eq[of 1016 "10 ^ 306"] by simp

lemma b64_round_1e306: "b64_round (10 ^ 306) = Finite (6413338752028713 * 2 ^ 964)"
proof -
  have f: "\<lfloor>(10::rat) ^ 306\<rfloor> = 10 ^ 306"
    by (metis floor_of_int of_int_numeral of_int_power)
  have fl: "floor_log2 \<bar>10 ^ 306\<bar> = 1016"
    by (simp add: floor_log2_def f bitlen_1e306[simplified])
  have "b64_round (10 ^ 306) =
          (if pow2 1024 \<le> 6413338752028713 * 2 ^ 964 then Infinite
           else Finite (if (10 ^ 306 :: rat) < 0 then - (6413338752028713 * 2 ^ 964)
                        else 6413338752028713 * 2 ^ 964))"
    by (rule b64_round_eval[where e=1016 and u=964 and m=6413338752028713])
       (simp_all add: fl[simplified] pow2_def round_half_even_def Let_def floor_numeral_div)
  then show ?thesis by (simp add: pow2_def)
qed


lemma b64_round_1e306_d:
  "b64_round (1 - 6413338752028713 * 2 ^ 964) = Finite (- (6413338752028713 * 2 ^ 964))"
proof -
  have b: "bitlen (6413338752028713 * 2 ^ 964 - 1) = 1017"
    using bitlen_eq[of 1016 "6413338752028713 * 2 ^ 964 - 1"] by simp
  have fl: "floor_log2 \<bar>1 - 6413338752028713 * 2 ^ 964\<bar> = 1016"
    by (simp add: floor_log2_def b[simplified])
  have "b64_round (1 - 6413338752028713 * 2 ^ 964) =
          (if pow2 1024 \<le> 6413338752028713 * 2 ^ 964 then Infinite
           else Finite (if (1 - 6413338752028713 * 2 ^ 964 :: rat) < 0
                        then - (6413338752028713 * 2 ^ 964)
                        else 6413338752028713 * 2 ^ 964))"
    by (rule b64_round_eval[where e=1016 and u=964 and m=6413338752028713])
       (simp_all add: fl[simplified] pow2_def round_half_even_def Let_def floor_numeral_div)
  then show ?thesis by (simp add: pow2_def)
qed

lemma b64_round_1e306_p: "b64_round (- (6413338752028713 * 2 ^ 964) * 255) = Infinite"
proof -
  have b: "bitlen (6413338752028713 * 2 ^ 964 * 255) = 1025"
    using bitlen_eq[of 1024 "6413338752028713 * 2 ^ 964 * 255"] by simp
  have fl: "floor_log2 \<bar>- (6413338752028713 * 2 ^ 964) * 255\<bar> = 1024"
    by (simp add: floor_log2_def b[simplified])
  show ?thesis
    by (rule b64_round_overflow[where e=1024 and u=972 and m=6388286647528601])
       (simp_all add: fl[simplified] pow2_def round_half_even_def Let_def floor_numeral_div)
qed

lemma Brightness_product_1e306: "Brightness_product (10 ^ 306) = Infinite"
  unfolding Brightness_product_def b64_round_1e306 b64_sub.simps b64_round_1e306_d
    b64_mul.simps b64_round_1e306_p by (rule refl)

lemma b64_round_minus_255: "b64_round (- 255) = Finite (- 255)"
proof -
  have "b64_round (- 255) = Finite (if (- 255::rat) < 0 then - 255 else 255)"
    by (rule b64_round_small[where e=7 and u="- 45" and m="255 * 2 ^ 45"])
       (simp_all add: b64_eval)
  then show ?thesis by simp
qed

lemma Brightness_product_2: "Brightness_product 2 = Finite (- 255)"
  by (simp add: Brightness_product_def b64_round_2 b64_round_minus_1 b64_round_minus_255)

lemma Brightness_clamp_eq: "Brightness_clamp v = max 0 (min 255 v)"
  by (simp add: Brightness_clamp_def Let_def max_def min_def)

lemma Brightness_Finite:
  "Brightness_product l = Finite p \<Longrightarrow>
   Brightness (Numeric l) s =
     send_serial (''BL('' @ str_int (max 0 (min 255 (if 0 \<le> p then \<lfloor>p\<rfloor> else \<lceil>p\<rceil>))) @ '')'') s"
  by (simp add: Brightness_def Brightness_clamp_eq)

lemma Brightness_Infinite:
  "Brightness_product l = Infinite \<Longrightarrow> Brightness (Numeric l) s = (False, s)"
  by (simp add: Brightness_def)

lemma Brightness_product_Finite:
  assumes "Brightness_product l = Finite p"
  obtains a d where "b64_round l = Finite a" and "b64_round (1 - a) = Finite d"
    and "b64_round (d * 255) = Finite p"
proof -
  obtain a where a: "b64_round l = Finite a"
    using assms by (cases "b64_round l") (simp_all add: Brightness_product_def)
  obtain d where d: "b64_round (1 - a) = Finite d"
    using assms a by (cases "b64_round (1 - a)") (simp_all add: Brightness_product_def)
  have "b64_round (d * 255) = Finite p"
    using assms a d by (simp add: Brightness_product_def)
  with a d that show ?thesis by blast
qed

lemma abs_combine:
  fixes e1 e2 e3 :: rat
  assumes "\<bar>e1\<bar> \<le> b1" and "\<bar>e2\<bar> \<le> b2" and "\<bar>e3\<bar> \<le> b3"
  shows "\<bar>e1 + 255 * e2 - 255 * e3\<bar> \<le> b1 + 255 * b2 + 255 * b3"
  using assms by linarith

text \<open>A level between 0 and 1: the product is a double between 0 and 255, within 2^-43 of
  the exact value.\<close>

lemma Brightness_product_unit:
  assumes "0 \<le> l" and "l \<le> 1"
  shows "\<exists>p. Brightness_product l = Finite p \<and> 0 \<le> p \<and> p \<le> 255 \<and>
             \<bar>p - (1 - l) * 255\<bar> \<le> 1 / 2 ^ 43"
proof -
  from b64_round_bounds[of l 1 0] assms
  obtain a where a: "b64_round l = Finite a" "0 \<le> a" "a \<le> 1" "\<bar>a - l\<bar> \<le> 1 / 2 ^ 53"
    by auto
  from b64_round_bounds[of "1 - a" 1 0] a(2,3)
  obtain d where d: "b64_round (1 - a) = Finite d" "0 \<le> d" "d \<le> 1"
      "\<bar>d - (1 - a)\<bar> \<le> 1 / 2 ^ 53"
    by auto
  have "d * 255 \<le> of_int 255" using d(3) by simp
  moreover have "0 \<le> d * 255" using d(2) by simp
  ultimately obtain p where p: "b64_round (d * 255) = Finite p" "0 \<le> p" "p \<le> of_int 255"
      "\<bar>p - d * 255\<bar> \<le> 1 / 2 ^ (53 - 7)"
    using b64_round_bounds[of "d * 255" 255 7] by auto
  have prod: "Brightness_product l = Finite p"
    by (simp add: Brightness_product_def a(1) d(1) p(1))
  have p4: "\<bar>p - d * 255\<bar> \<le> 1 / 2 ^ 46" using p(4) by simp
  have "p - (1 - l) * 255 = (p - d * 255) + 255 * (d - (1 - a)) - 255 * (a - l)"
    by (simp add: algebra_simps)
  also have "\<bar>\<dots>\<bar> \<le> 1 / 2 ^ 46 + 255 * (1 / 2 ^ 53) + 255 * (1 / 2 ^ 53)"
    by (rule abs_combine[OF p4 d(4) a(4)])
  also have "\<dots> \<le> 1 / 2 ^ 43" by simp
  finally have "\<bar>p - (1 - l) * 255\<bar> \<le> 1 / 2 ^ 43" .
  with prod p(2,3) show ?thesis by auto
qed

lemma Brightness_product_high:
  assumes "1 \<le> l" and "Brightness_product l = Finite p"
  shows "p \<le> 0"
proof -
  from assms(2) obtain a d where a: "b64_round l = Finite a"
    and d: "b64_round (1 - a) = Finite d" and p: "b64_round (d * 255) = Finite p"
    by (rule Brightness_product_Finite)
  have "of_int 1 \<le> a" using assms(1) by (intro b64_round_lower[OF _ _ _ a]) simp_all
  then have "1 - a \<le> 0" by simp
  then have "d \<le> 0" using d by (rule b64_round_nonpos)
  then have "d * 255 \<le> 0" by simp
  then show ?thesis using p by (rule b64_round_nonpos)
qed

lemma Brightness_product_low:
  assumes "l \<le> 0" and "Brightness_product l = Finite p"
  shows "255 \<le> p"
proof -
  from assms(2) obtain a d where a: "b64_round l = Finite a"
    and d: "b64_round (1 - a) = Finite d" and p: "b64_round (d * 255) = Finite p"
    by (rule Brightness_product_Finite)
  have "a \<le> 0" using assms(1) a by (rule b64_round_nonpos)
  then have "of_int 1 \<le> 1 - a" by simp
  then have "of_int 1 \<le> d" using d by (intro b64_round_lower[OF _ _ _ d]) simp_all
  then have "of_int 255 \<le> d * 255" by simp
  then have "of_int 255 \<le> p" by (intro b64_round_lower[OF _ _ _ p]) simp_all
  then show ?thesis by simp
qed

lemma str_int_50: "str_int 50 = ''50''" by (simp add: str_int_eval)
lemma str_int_153: "str_int 153 = ''153''" by (simp add: str_int_eval)
lemma str_int_204: "str_int 204 = ''204''" by (simp add: str_int_eval)

lemma Brightness_unit:
  assumes "0 \<le> l" and "l \<le> 1"
  shows "\<exists>p. Brightness_product l = Finite p \<and> 0 \<le> p \<and> p \<le> 255 \<and>
             \<bar>p - (1 - l) * 255\<bar> \<le> 1 / 2 ^ 43 \<and>
             Brightness (Numeric l) s = send_serial (''BL('' @ str_int \<lfloor>p\<rfloor> @ '')'') s"
proof -
  from Brightness_product_unit[OF assms]
  obtain p where p: "Brightness_product l = Finite p" "0 \<le> p" "p \<le> 255"
      "\<bar>p - (1 - l) * 255\<bar> \<le> 1 / 2 ^ 43" by blast
  have "0 \<le> \<lfloor>p\<rfloor>" using p(2) by simp
  moreover have "\<lfloor>p\<rfloor> \<le> 255" using p(3) by (simp add: floor_le_iff)
  ultimately have "max 0 (min 255 (if 0 \<le> p then \<lfloor>p\<rfloor> else \<lceil>p\<rceil>)) = \<lfloor>p\<rfloor>"
    using p(2) by simp
  with Brightness_Finite[OF p(1), of s] p show ?thesis by auto
qed

lemma Brightness_high:
  assumes "1 \<le> l"
  shows "Brightness_product l = Infinite \<or> Brightness (Numeric l) s = send_serial ''BL(0)'' s"
proof (cases "Brightness_product l")
  case (Finite p)
  from Brightness_product_high[OF assms Finite] have p: "p \<le> 0" .
  have "(if 0 \<le> p then \<lfloor>p\<rfloor> else \<lceil>p\<rceil>) \<le> 0"
    using p by (simp add: floor_le_iff ceiling_le_iff)
  then have "max 0 (min 255 (if 0 \<le> p then \<lfloor>p\<rfloor> else \<lceil>p\<rceil>)) = 0" by simp
  with Brightness_Finite[OF Finite, of s] show ?thesis by (simp add: str_int_0)
next
  case Infinite
  then show ?thesis by simp
qed

lemma Brightness_low:
  assumes "l \<le> 0"
  shows "Brightness_product l = Infinite \<or> Brightness (Numeric l) s = send_serial ''BL(255)'' s"
proof (cases "Brightness_product l")
  case (Finite p)
  from Brightness_product_low[OF assms Finite] have p: "255 \<le> p" .
  then have "255 \<le> \<lfloor>p\<rfloor>" by (simp add: le_floor_iff)
  then have "max 0 (min 255 (if 0 \<le> p then \<lfloor>p\<rfloor> else \<lceil>p\<rceil>)) = 255" using p by simp
  with Brightness_Finite[OF Finite, of s] show ?thesis by (simp add: str_int_255)
next
  case Infinite
  then show ?thesis by simp
qed

lemma Brightness_cases:
  "(case Brightness_product l of
      Infinite \<Rightarrow> Brightness (Numeric l) s = (False, s)
    | Finite p \<Rightarrow> Brightness (Numeric l) s =
        send_serial (''BL('' @ str_int (max 0 (min 255 (if 0 \<le> p then \<lfloor>p\<rfloor> else \<lceil>p\<rceil>))) @ '')'') s)"
  using Brightness_Finite[of l _ s] Brightness_Infinite[of l s]
  by (cases "Brightness_product l") simp_all

lemma Brightness_0: "Brightness (Numeric 0) s = send_serial ''BL(255)'' s"
  using Brightness_Finite[OF Brightness_product_0, of s] by (simp add: str_int_255)

lemma Brightness_1: "Brightness (Numeric 1) s = send_serial ''BL(0)'' s"
  using Brightness_Finite[OF Brightness_product_1, of s] by (simp add: str_int_0)

lemma Brightness_half: "Brightness (Numeric (1 / 2)) s = send_serial ''BL(127)'' s"
  using Brightness_Finite[OF Brightness_product_half, of s]
  by (simp add: str_int_127 floor_numeral_div)

lemma Brightness_4_5: "Brightness (Numeric (4 / 5)) s = send_serial ''BL(50)'' s"
  using Brightness_Finite[OF Brightness_product_4_5, of s]
  by (simp add: str_int_50 floor_numeral_div)

lemma Brightness_2_5: "Brightness (Numeric (2 / 5)) s = send_serial ''BL(153)'' s"
  using Brightness_Finite[OF Brightness_product_2_5, of s] by (simp add: str_int_153)

lemma Brightness_1_5: "Brightness (Numeric (1 / 5)) s = send_serial ''BL(204)'' s"
  using Brightness_Finite[OF Brightness_product_1_5, of s] by (simp add: str_int_204)

lemma Brightness_minus_1: "Brightness (Numeric (- 1)) s = send_serial ''BL(255)'' s"
  using Brightness_Finite[OF Brightness_product_minus_1, of s] by (simp add: str_int_255)

lemma Brightness_1e306: "Brightness (Numeric (10 ^ 306)) s = (False, s)"
  using Brightness_product_1e306 by (rule Brightness_Infinite)

text \<open>
  Claim C7, as amended. \<open>Brightness\<close> computes \<open>int((1.0 - float(level))*255)\<close> in
  double precision: the level is rounded to a double, subtracted from 1, multiplied by 255,
  each result rounded to the nearest double, and the product is truncated towards zero and
  clamped to 0..255. For a level between 0 and 1 the product is a double \<open>p\<close> between 0
  and 255 that differs from \<open>(1 - level) * 255\<close> by at most 2^-43, and the command sent
  is \<open>BL(b)\<close> with \<open>b\<close> the floor of \<open>p\<close>. For a level of 1 or more the command is
  \<open>BL(0)\<close> and for a level of 0 or less it is \<open>BL(255)\<close>, unless the product overflows.
  When the product is not finite, \<open>int\<close> raises and \<open>Brightness\<close> returns \<open>False\<close>
  leaving the session, and so the port, untouched: this happens at the level 10^306. In
  particular level 0 sends \<open>BL(255)\<close>, level 1 sends \<open>BL(0)\<close>, and the levels 1/2, 4/5,
  2/5 and 1/5 send the bytes 127, 50, 153 and 204.
\<close>

theorem Brightness_level_byte:
  "(0 \<le> l \<and> l \<le> 1 \<longrightarrow>
      (\<exists>p. Brightness_product l = Finite p \<and> 0 \<le> p \<and> p \<le> 255 \<and>
           \<bar>p - (1 - l) * 255\<bar> \<le> 1 / 2 ^ 43 \<and>
           Brightness (Numeric l) s = send_serial (''BL('' @ str_int \<lfloor>p\<rfloor> @ '')'') s)) \<and>
   (1 \<le> l \<longrightarrow>
      Brightness_product l = Infinite \<or> Brightness (Numeric l) s = send_serial ''BL(0)'' s) \<and>
   (l \<le> 0 \<longrightarrow>
      Brightness_product l = Infinite \<or> Brightness (Numeric l) s = send_serial ''BL(255)'' s) \<and>
   (case Brightness_product l of
      Infinite \<Rightarrow> Brightness (Numeric l) s = (False, s)
    | Finite p \<Rightarrow> Brightness (Numeric l) s =
        send_serial (''BL('' @ str_int (max 0 (min 255 (if 0 \<le> p then \<lfloor>p\<rfloor> else \<lceil>p\<rceil>))) @ '')'') s) \<and>
   Brightness (Numeric 0) s = send_serial ''BL(255)'' s \<and>
   Brightness (Numeric 1) s = send_serial ''BL(0)'' s \<and>
   Brightness (Numeric (1 / 2)) s = send_serial ''BL(127)'' s \<and>
   Brightness (Numeric (4 / 5)) s = send_serial ''BL(50)'' s \<and>
   Brightness (Numeric (2 / 5)) s = send_serial ''BL(153)'' s \<and>
   Brightness (Numeric (1 / 5)) s = send_serial ''BL(204)'' s \<and>
   Brightness (Numeric (10 ^ 306)) s = (False, s)"
  using Brightness_unit[of l s] Brightness_high[of l s] Brightness_low[of l s]
    Brightness_cases[of l s] Brightness_0[of s] Brightness_1[of s] Brightness_half[of s]
    Brightness_4_5[of s] Brightness_2_5[of s] Brightness_1_5[of s] Brightness_1e306[of s]
  by (intro conjI impI) blast+

text \<open>
  The ranges of the level at 4/5, 2 and -1, and the overflow at 10^306, on a session whose
  display never answers.
\<close>

theorem Brightness_level_byte_witness:
  "(0::rat) \<le> 4 / 5 \<and> (4 / 5 :: rat) \<le> 1 \<and>
   Brightness_product (4 / 5) = Finite (3588805953060863 / 70368744177664) \<and>
   \<bar>3588805953060863 / 70368744177664 - (1 - 4 / 5) * 255\<bar> \<le> (1 :: rat) / 2 ^ 43 \<and>
   \<lfloor>3588805953060863 / 70368744177664 :: rat\<rfloor> = 50 \<and>
   Brightness (Numeric (4 / 5)) (SunLCD_init [] 240 320) =
     send_serial ''BL(50)'' (SunLCD_init [] 240 320) \<and>
   (1::rat) \<le> 2 \<and> Brightness_product 2 = Finite (- 255) \<and>
   Brightness (Numeric 2) (SunLCD_init [] 240 320) =
     send_serial ''BL(0)'' (SunLCD_init [] 240 320) \<and>
   (- 1 :: rat) \<le> 0 \<and> Brightness_product (- 1) = Finite 510 \<and>
   Brightness (Numeric (- 1)) (SunLCD_init [] 240 320) =
     send_serial ''BL(255)'' (SunLCD_init [] 240 320) \<and>
   Brightness_product (10 ^ 306) = Infinite \<and>
   Brightness (Numeric (10 ^ 306)) (SunLCD_init [] 240 320) = (False, SunLCD_init [] 240 320)"
proof -
  define s where "s = SunLCD_init [] 240 320"
  have a: "(0::rat) \<le> 4 / 5 \<and> (4 / 5 :: rat) \<le> 1" by simp
  from Brightness_level_byte[of "4 / 5" s, THEN conjunct1, rule_format, OF a]
  obtain p where p: "Brightness_product (4 / 5) = Finite p"
      "\<bar>p - (1 - 4 / 5) * 255\<bar> \<le> 1 / 2 ^ 43"
      "Brightness (Numeric (4 / 5)) s = send_serial (''BL('' @ str_int \<lfloor>p\<rfloor> @ '')'') s"
    by blast
  from p(1) have pv: "p = 3588805953060863 / 70368744177664"
    by (simp add: Brightness_product_4_5)
  have fl: "\<lfloor>3588805953060863 / 70368744177664 :: rat\<rfloor> = 50"
    by (simp add: floor_numeral_div)
  have c1: "\<bar>3588805953060863 / 70368744177664 - (1 - 4 / 5) * 255\<bar> \<le> (1 :: rat) / 2 ^ 43"
    using p(2) unfolding pv .
  have c2: "Brightness (Numeric (4 / 5)) s = send_serial ''BL(50)'' s"
    using p(3) unfolding pv fl by (simp add: str_int_50)
  have b: "(1::rat) \<le> 2" by simp
  from Brightness_level_byte[of 2 s, THEN conjunct2, THEN conjunct1, rule_format, OF b]
  have c3: "Brightness (Numeric 2) s = send_serial ''BL(0)'' s"
    by (simp add: Brightness_product_2)
  have c: "(- 1::rat) \<le> 0" by simp
  from Brightness_level_byte[of "- 1" s, THEN conjunct2, THEN conjunct2, THEN conjunct1,
      rule_format, OF c]
  have c4: "Brightness (Numeric (- 1)) s = send_serial ''BL(255)'' s"
    by (simp add: Brightness_product_minus_1)
  from Brightness_level_byte[of "10 ^ 306" s, THEN conjunct2, THEN conjunct2, THEN conjunct2,
      THEN conjunct1]
  have c5: "Brightness (Numeric (10 ^ 306)) s = (False, s)"
    unfolding Brightness_product_1e306 by simp
  show ?thesis
    unfolding s_def[symmetric]
    using a b c c1 c2 c3 c4 c5 fl Brightness_product_4_5 Brightness_product_2
      Brightness_product_minus_1 Brightness_product_1e306
    by (intro conjI) blast+
qed

text \<open>
  Claim C7 as stated fails: for the level 1/2 the driver sends \<open>BL(127)\<close>, while
  \<open>(1 - 1/2) * 255 = 127.5\<close> rounds to 128; and for the numeric level 10^306 no byte is
  sent at all.
\<close>

theorem Brightness_round_counterexample:
  "Brightness (Numeric (1 / 2)) (SunLCD_init [] 240 320) =
     send_serial ''BL(127)'' (SunLCD_init [] 240 320) \<and>
   last (writes_of (trace (ser (snd (Brightness (Numeric (1 / 2)) (SunLCD_init [] 240 320))))))
     = ''BL(127)'' @ CRLF \<and>
   max 0 (min 255 (round ((1 - 1 / 2) * 255 :: rat))) = 128 \<and>
   ''BL(127)'' \<noteq> ''BL('' @ str_int (max 0 (min 255 (round ((1 - 1 / 2) * 255 :: rat)))) @ '')'' \<and>
   Brightness (Numeric (10 ^ 306)) (SunLCD_init [] 240 320) = (False, SunLCD_init [] 240 320)"
proof -
  have r: "round ((1 - 1 / 2) * 255 :: rat) = 128"
    by (simp add: round_def floor_numeral_div)
  have s128: "str_int 128 = ''128''" by (simp add: str_int_eval)
  have c1: "Brightness (Numeric (1 / 2)) (SunLCD_init [] 240 320) =
     send_serial ''BL(127)'' (SunLCD_init [] 240 320)"
    by (rule Brightness_half)
  have c2: "last (writes_of (trace (ser (snd (Brightness (Numeric (1 / 2))
      (SunLCD_init [] 240 320)))))) = ''BL(127)'' @ CRLF"
    unfolding c1 by (simp add: send_serial_writes)
  have c3: "max 0 (min 255 (round ((1 - 1 / 2) * 255 :: rat))) = 128"
    unfolding r by simp
  have c4: "''BL(127)'' \<noteq>
      ''BL('' @ str_int (max 0 (min 255 (round ((1 - 1 / 2) * 255 :: rat)))) @ '')''"
    unfolding c3 s128 by simp
  have c5: "Brightness (Numeric (10 ^ 306)) (SunLCD_init [] 240 320) =
      (False, SunLCD_init [] 240 320)"
    by (rule Brightness_1e306)
  from c1 c2 c3 c4 c5 show ?thesis by (intro conjI)
qed

text \<open>
  Claim C8, as amended. The level -1 is a number: the product \<open>(1.0 - (-1.0))*255\<close> is
  510, which the clamp brings to 255; \<open>Brightness(-1)\<close> writes the command \<open>BL(255)\<close>
  to the port, and its result is the result of that transmission.
\<close>

theorem Brightness_negative_sends:
  "Brightness_product (- 1) = Finite 510 \<and>
   Brightness_clamp 510 = 255 \<and>
   Brightness (Numeric (- 1)) s = send_serial ''BL(255)'' s \<and>
   writes_of (trace (ser (snd (Brightness (Numeric (- 1)) s)))) =
     writes_of (trace (ser s)) @ [''BL(255)'' @ CRLF] \<and>
   fst (Brightness (Numeric (- 1)) s) = fst (send_serial ''BL(255)'' s)"
  by (simp add: Brightness_product_minus_1 Brightness_minus_1 send_serial_writes
      Brightness_clamp_def)

text \<open>
  Claim C8 as stated fails: on a session whose display answers, \<open>Brightness(-1)\<close> returns
  \<open>True\<close> and has written the command \<open>BL(255)\<close> to the port.
\<close>

theorem Brightness_negative_counterexample:
  "fst (Brightness (Numeric (- 1)) (SunLCD_init (replicate 3 (''OK'' @ [LF])) 240 320)) = True \<and>
   writes_of (trace (ser (snd (Brightness (Numeric (- 1))
       (SunLCD_init (replicate 3 (''OK'' @ [LF])) 240 320))))) =
     writes_of (trace (ser (SunLCD_init (replicate 3 (''OK'' @ [LF])) 240 320))) @
       [''BL(255)'' @ CRLF]"
proof -
  have "fst (send_serial ''BL(255)'' (SunLCD_init (replicate 3 (''OK'' @ [LF])) 240 320))"
    by code_simp
  then show ?thesis
    by (simp add: Brightness_minus_1 send_serial_writes)
qed

section \<open>The draw cursor, and image and font IDs\<close>

lemma str_int_5: "str_int 5 = ''5''" by (simp add: str_int_eval)
lemma str_int_8: "str_int 8 = ''8''" by (simp add: str_int_eval)

lemma Line_frame: "frame s (snd (Line a b c s))"
  by (simp add: Line_def send_serial_frame)

lemma Line_cursor: "cursor (snd (Line a b c s)) = cursor s"
  using Line_frame[of s a b c] by (simp add: frame_def)

lemma Line_writes:
  "writes_of (trace (ser (snd (Line a b c s)))) =
     writes_of (trace (ser s)) @
       [''PL('' @ str_int (fst a) @ '','' @ str_int (snd a) @ '','' @ str_int (fst b) @ '','' @
        str_int (snd b) @ '','' @ str_int c @ '')'' @ CRLF]"
  by (simp add: Line_def send_serial_writes)

lemma LineTo_unfold:
  "length p = 2 \<Longrightarrow>
   LineTo p c s =
     (if fst (Line (cursor s) (p ! 0, p ! 1) c s)
      then (Some True, (snd (Line (cursor s) (p ! 0, p ! 1) c s))\<lparr>cursor := (p ! 0, p ! 1)\<rparr>)
      else (Some False, snd (Line (cursor s) (p ! 0, p ! 1) c s)))"
  by (simp add: LineTo_def MoveTo_def split_beta Let_def)

lemma LineTo_from:
  assumes "cursor s = (a, b)"
  shows "LineTo [x, y] c s =
     (if fst (Line (a, b) (x, y) c s)
      then (Some True, (snd (Line (a, b) (x, y) c s))\<lparr>cursor := (x, y)\<rparr>)
      else (Some False, snd (Line (a, b) (x, y) c s)))"
  by (subst LineTo_unfold) (simp_all add: assms)

lemma Line_fst: "fst (Line a b c s) = (\<exists>ch \<in> set (polled 10 s). LF \<in> set ch)"
  by (simp add: Line_def send_serial_fst)

lemma MoveTo_5_5:
  "cursor (snd (MoveTo [5, 5] s)) = (5, 5) \<and> ser (snd (MoveTo [5, 5] s)) = ser s"
  by (simp add: MoveTo_def)

lemma str_int_15: "str_int 15 = ''15''" by (simp add: str_int_eval)
lemma str_int_20: "str_int 20 = ''20''" by (simp add: str_int_eval)
lemma str_int_30: "str_int 30 = ''30''" by (simp add: str_int_eval)

text \<open>
  Claim C9, as amended. For every position \<open>p\<close> of two elements, \<open>MoveTo p\<close> succeeds and
  leaves the cursor at \<open>p\<close>, and a second \<open>MoveTo p\<close> changes nothing. After
  \<open>MoveTo [5,5]\<close>, \<open>LineTo [8,5]\<close> sends the line command from (5,5) to (8,5). The
  command is answered when one of the next ten drains of the port holds a line feed. When it
  is answered, \<open>LineTo\<close> returns \<open>True\<close> with the cursor at (8,5), the rest of the session
  being as the line command left it, and a following \<open>LineTo [x,y]\<close> sends its line from
  (8,5). When it is not answered, \<open>LineTo\<close> returns \<open>False\<close> before it moves the cursor:
  the cursor stays at (5,5), and a following \<open>LineTo [x,y]\<close> sends its line from (5,5).
\<close>

theorem MoveTo_LineTo_cursor:
  "(length p = 2 \<longrightarrow>
      fst (MoveTo p s) \<and> cursor (snd (MoveTo p s)) = (p ! 0, p ! 1) \<and>
      MoveTo p (snd (MoveTo p s)) = MoveTo p s) \<and>
   (let s1 = snd (MoveTo [5, 5] s);
        l = Line (5, 5) (8, 5) color s1;
        r = LineTo [8, 5] color s1;
        n = LineTo [x, y] color' (snd r)
    in cursor s1 = (5, 5) \<and>
       writes_of (trace (ser (snd r))) =
         writes_of (trace (ser s)) @ [''PL(5,5,8,5,'' @ str_int color @ '')'' @ CRLF] \<and>
       fst l = (\<exists>ch \<in> set (polled 10 s). LF \<in> set ch) \<and>
       (fst l \<longrightarrow>
          fst r = Some True \<and> cursor (snd r) = (8, 5) \<and>
          snd r = (snd l)\<lparr>cursor := (8, 5)\<rparr> \<and>
          writes_of (trace (ser (snd n))) =
            writes_of (trace (ser (snd r))) @
              [''PL(8,5,'' @ str_int x @ '','' @ str_int y @ '','' @ str_int color' @ '')'' @
               CRLF]) \<and>
       (\<not> fst l \<longrightarrow>
          fst r = Some False \<and> cursor (snd r) = (5, 5) \<and> snd r = snd l \<and>
          writes_of (trace (ser (snd n))) =
            writes_of (trace (ser (snd r))) @
              [''PL(5,5,'' @ str_int x @ '','' @ str_int y @ '','' @ str_int color' @ '')'' @
               CRLF]))"
proof -
  have m: "length p = 2 \<longrightarrow>
      fst (MoveTo p s) \<and> cursor (snd (MoveTo p s)) = (p ! 0, p ! 1) \<and>
      MoveTo p (snd (MoveTo p s)) = MoveTo p s"
    by (simp add: MoveTo_def)
  define s1 where "s1 = snd (MoveTo [5, 5] s)"
  define l where "l = Line (5, 5) (8, 5) color s1"
  define r where "r = LineTo [8, 5] color s1"
  define n where "n = LineTo [x, y] color' (snd r)"
  have c1: "cursor s1 = (5, 5)" by (simp add: s1_def MoveTo_def)
  have t1: "ser s1 = ser s" by (simp add: s1_def MoveTo_def)
  have r_eq: "r = (if fst l then (Some True, (snd l)\<lparr>cursor := (8, 5)\<rparr>)
                   else (Some False, snd l))"
    unfolding r_def l_def by (rule LineTo_from[OF c1])
  have w: "writes_of (trace (ser (snd r))) =
         writes_of (trace (ser s)) @ [''PL(5,5,8,5,'' @ str_int color @ '')'' @ CRLF]"
    by (simp add: r_eq l_def Line_writes t1 str_int_5 str_int_8)
  have a: "fst l = (\<exists>ch \<in> set (polled 10 s). LF \<in> set ch)"
    by (simp add: l_def Line_fst polled_def t1)
  have yes: "fst r = Some True \<and> cursor (snd r) = (8, 5) \<and>
          snd r = (snd l)\<lparr>cursor := (8, 5)\<rparr> \<and>
          writes_of (trace (ser (snd n))) =
            writes_of (trace (ser (snd r))) @
              [''PL(8,5,'' @ str_int x @ '','' @ str_int y @ '','' @ str_int color' @ '')'' @
               CRLF]" if ok: "fst l"
  proof -
    have c2: "cursor (snd r) = (8, 5)" using ok by (simp add: r_eq)
    have "writes_of (trace (ser (snd n))) =
            writes_of (trace (ser (snd r))) @
              [''PL(8,5,'' @ str_int x @ '','' @ str_int y @ '','' @ str_int color' @ '')'' @
               CRLF]"
      unfolding n_def LineTo_from[OF c2]
      by (simp add: Line_writes str_int_5 str_int_8)
    with ok c2 show ?thesis by (simp add: r_eq)
  qed
  have no: "fst r = Some False \<and> cursor (snd r) = (5, 5) \<and> snd r = snd l \<and>
          writes_of (trace (ser (snd n))) =
            writes_of (trace (ser (snd r))) @
              [''PL(5,5,'' @ str_int x @ '','' @ str_int y @ '','' @ str_int color' @ '')'' @
               CRLF]" if ko: "\<not> fst l"
  proof -
    have c2: "cursor (snd r) = (5, 5)" using ko by (simp add: r_eq l_def Line_cursor c1)
    have "writes_of (trace (ser (snd n))) =
            writes_of (trace (ser (snd r))) @
              [''PL(5,5,'' @ str_int x @ '','' @ str_int y @ '','' @ str_int color' @ '')'' @
               CRLF]"
      unfolding n_def LineTo_from[OF c2]
      by (simp add: Line_writes str_int_5 str_int_8)
    with ko c2 show ?thesis by (simp add: r_eq)
  qed
  show ?thesis
    unfolding Let_def s1_def[symmetric] l_def[symmetric] r_def[symmetric] n_def[symmetric]
    using m c1 w a yes no by blast
qed

text \<open>
  The sequence \<open>MoveTo [5,5]\<close>, \<open>LineTo [8,5]\<close>, \<open>LineTo [20,30]\<close> on a display that
  answers, and \<open>MoveTo [5,5]\<close>, \<open>LineTo [8,5]\<close> on a display that never answers.
\<close>

theorem MoveTo_LineTo_cursor_witness:
  "length [5, 5 :: int] = 2 \<and>
   cursor (snd (MoveTo [5, 5] (snd (MoveTo [5, 5]
          (SunLCD_init (replicate 4 (''OK'' @ [LF])) 240 320))))) = (5, 5) \<and>
   fst (Line (5, 5) (8, 5) 15
          (snd (MoveTo [5, 5] (SunLCD_init (replicate 4 (''OK'' @ [LF])) 240 320)))) \<and>
   cursor (snd (LineTo [8, 5] 15
          (snd (MoveTo [5, 5] (SunLCD_init (replicate 4 (''OK'' @ [LF])) 240 320))))) = (8, 5) \<and>
   last (writes_of (trace (ser (snd (LineTo [20, 30] 15 (snd (LineTo [8, 5] 15
          (snd (MoveTo [5, 5] (SunLCD_init (replicate 4 (''OK'' @ [LF])) 240 320)))))))))) =
     ''PL(8,5,20,30,15)'' @ CRLF \<and>
   \<not> fst (Line (5, 5) (8, 5) 15 (snd (MoveTo [5, 5] (SunLCD_init [] 240 320)))) \<and>
   fst (LineTo [8, 5] 15 (snd (MoveTo [5, 5] (SunLCD_init [] 240 320)))) = Some False \<and>
   cursor (snd (LineTo [8, 5] 15 (snd (MoveTo [5, 5] (SunLCD_init [] 240 320))))) = (5, 5)"
proof -
  let ?s = "SunLCD_init (replicate 4 (''OK'' @ [LF])) 240 320"
  let ?q = "SunLCD_init [] 240 320"
  have h: "fst (Line (5, 5) (8, 5) 15 (snd (MoveTo [5, 5] ?s)))" by code_simp
  have k: "\<not> fst (Line (5, 5) (8, 5) 15 (snd (MoveTo [5, 5] ?q)))" by code_simp
  note T = MoveTo_LineTo_cursor[of "[5, 5]" ?s 15 20 30 15, unfolded Let_def]
  note Q = MoveTo_LineTo_cursor[of "[5, 5]" ?q 15 20 30 15, unfolded Let_def]
  have l: "length [5, 5 :: int] = 2" by simp
  from T l have A: "cursor (snd (MoveTo [5, 5] (snd (MoveTo [5, 5] ?s)))) = (5, 5)"
    by simp
  from T h have B: "cursor (snd (LineTo [8, 5] 15 (snd (MoveTo [5, 5] ?s)))) = (8, 5)"
    by blast
  from T h have C: "writes_of (trace (ser (snd (LineTo [20, 30] 15
        (snd (LineTo [8, 5] 15 (snd (MoveTo [5, 5] ?s)))))))) =
      writes_of (trace (ser (snd (LineTo [8, 5] 15 (snd (MoveTo [5, 5] ?s)))))) @
        [''PL(8,5,'' @ str_int 20 @ '','' @ str_int 30 @ '','' @ str_int 15 @ '')'' @ CRLF]"
    by blast
  have D: "last (writes_of (trace (ser (snd (LineTo [20, 30] 15
        (snd (LineTo [8, 5] 15 (snd (MoveTo [5, 5] ?s))))))))) = ''PL(8,5,20,30,15)'' @ CRLF"
    unfolding C str_int_15 str_int_20 str_int_30 by simp
  from Q k have E: "fst (LineTo [8, 5] 15 (snd (MoveTo [5, 5] ?q))) = Some False"
    by blast
  from Q k have F: "cursor (snd (LineTo [8, 5] 15 (snd (MoveTo [5, 5] ?q)))) = (5, 5)"
    by blast
  from l h k A B D E F show ?thesis by blast
qed

text \<open>
  Claim C9 as stated fails: on a session whose display never answers, \<open>LineTo [8,5]\<close>
  after \<open>MoveTo [5,5]\<close> sends the line command from (5,5) to (8,5) and returns \<open>False\<close>
  with the cursor still at (5,5), not (8,5), and the following \<open>LineTo [20,30]\<close> sends its
  line from (5,5).
\<close>

theorem LineTo_timeout_counterexample:
  "fst (LineTo [8, 5] 15 (snd (MoveTo [5, 5] (SunLCD_init [] 240 320)))) = Some False \<and>
   cursor (snd (LineTo [8, 5] 15 (snd (MoveTo [5, 5] (SunLCD_init [] 240 320))))) = (5, 5) \<and>
   cursor (snd (LineTo [8, 5] 15 (snd (MoveTo [5, 5] (SunLCD_init [] 240 320))))) \<noteq> (8, 5) \<and>
   last (writes_of (trace (ser (snd (LineTo [8, 5] 15
          (snd (MoveTo [5, 5] (SunLCD_init [] 240 320))))))))
     = ''PL(5,5,8,5,15)'' @ CRLF \<and>
   last (writes_of (trace (ser (snd (LineTo [20, 30] 15 (snd (LineTo [8, 5] 15
          (snd (MoveTo [5, 5] (SunLCD_init [] 240 320)))))))))) =
     ''PL(5,5,20,30,15)'' @ CRLF"
proof -
  define s1 where "s1 = snd (MoveTo [5, 5] (SunLCD_init [] 240 320))"
  have c1: "cursor s1 = (5, 5)" unfolding s1_def using MoveTo_5_5 by blast
  have k: "\<not> fst (Line (5, 5) (8, 5) 15 s1)" unfolding s1_def by code_simp
  have r: "LineTo [8, 5] 15 s1 = (Some False, snd (Line (5, 5) (8, 5) 15 s1))"
    unfolding LineTo_from[OF c1] using k by simp
  have c2: "cursor (snd (LineTo [8, 5] 15 s1)) = (5, 5)"
    by (simp add: r Line_cursor c1)
  have w1: "last (writes_of (trace (ser (snd (LineTo [8, 5] 15 s1))))) =
      ''PL(5,5,8,5,15)'' @ CRLF"
    by (simp add: r Line_writes str_int_5 str_int_8 str_int_15)
  have w2: "last (writes_of (trace (ser (snd (LineTo [20, 30] 15
      (snd (LineTo [8, 5] 15 s1))))))) = ''PL(5,5,20,30,15)'' @ CRLF"
    unfolding LineTo_from[OF c2]
    by (simp add: Line_writes str_int_5 str_int_15 str_int_20 str_int_30)
  show ?thesis
    unfolding s1_def[symmetric] using r c2 w1 w2 by simp
qed

lemma py_index_negative:
  "- int (length xs) \<le> i \<Longrightarrow> i < 0 \<Longrightarrow>
   py_index xs i = Inr (xs ! nat (int (length xs) + i)) \<and>
   py_index xs (int (length xs) + i) = Inr (xs ! nat (int (length xs) + i))"
  by (simp add: py_index_def)

lemma registrations_example:
  assumes "img_list s = []" and "img_offset s = 2097152" and "font_list s = []"
  shows "img_list (snd (ListFont (16, 16) ''AB''
            (snd (ListImage (8, 8) (snd (ListImage (16, 16) s)))))) =
     [(2097152, (16, 16)), (2097664, (8, 8)), (2097792, (16, 16)), (2098304, (16, 16))]"
    and "font_list (snd (ListFont (16, 16) ''AB''
            (snd (ListImage (8, 8) (snd (ListImage (16, 16) s)))))) =
     [[CHR ''A'' \<mapsto> 2, CHR ''B'' \<mapsto> 3]]"
  using assms
  by (simp_all add: ListFont_def ListImage_def Let_def split_beta numeral_2_eq_2 numeral_3_eq_3)

lemma example_session_img_list:
  "img_list example_session =
     [(2097152, (16, 16)), (2097664, (8, 8)), (2097792, (16, 16)), (2098304, (16, 16))]"
  unfolding example_session_def
  by (rule registrations_example(1)) (simp_all only: SunLCD_init_frame)

lemma example_session_font_list:
  "font_list example_session = [[CHR ''A'' \<mapsto> 2, CHR ''B'' \<mapsto> 3]]"
  unfolding example_session_def
  by (rule registrations_example(2)) (simp_all only: SunLCD_init_frame)

lemma FSIMG_example: "FSIMG 2098304 3 4 16 16 0 = ''FSIMG(2098304,3,4,16,16,0)''"
  by (simp add: FSIMG_def str_int_eval)

lemma example_session_img_offset: "img_offset example_session = 2098816"
proof -
  have "img_offset (snd (ListFont (16, 16) ''AB''
            (snd (ListImage (8, 8) (snd (ListImage (16, 16) s)))))) = 2098816"
    if "img_offset s = 2097152" for s :: SunLCD
    using that by (simp add: ListFont_def ListImage_def Let_def split_beta)
  then show ?thesis
    unfolding example_session_def by (simp only: SunLCD_init_frame)
qed

lemma two_font_session_img_list:
  "img_list two_font_session =
     [(2097152, (16, 16)), (2097664, (8, 8)), (2097792, (16, 16)), (2098304, (16, 16)),
      (2098816, (8, 8))]"
  unfolding two_font_session_def
  by (simp add: ListFont_def ListImage_def Let_def split_beta example_session_img_list
      example_session_img_offset)

lemma two_font_session_font_list:
  "font_list two_font_session = [[CHR ''A'' \<mapsto> 2, CHR ''B'' \<mapsto> 3], [CHR ''A'' \<mapsto> 4]]"
  unfolding two_font_session_def
  by (simp add: ListFont_def ListImage_def Let_def split_beta example_session_img_list
      example_session_font_list eval_nat_numeral)

lemma TextFont_indexed:
  assumes "\<not> font_id > int (length (font_list s)) - 1"
    and "py_index (font_list s) font_id = Inr f"
  shows "TextFont font_id position str tr s =
     TextFont_finish (TextFont_loop f (lcd_w s) (lcd_h s) tr str position 0 [] s)"
  using assms
  by (cases "TextFont_loop f (lcd_w s) (lcd_h s) tr str position 0 [] s";
      cases "fst (TextFont_loop f (lcd_w s) (lcd_h s) tr str position 0 [] s)")
     (simp_all add: TextFont_def lcd_w_def lcd_h_def Let_def split_beta)

lemma TextFont_loop_single:
  assumes "f c = Some g" and "g < length (img_list s)"
  shows "TextFont_loop f w h tr [c] xy 0 [] s =
     (Completed (FSIMG (fst (img_list s ! g)) (fst xy) (snd xy) (fst (snd (img_list s ! g)))
                   (snd (snd (img_list s ! g))) tr @ '';''), s)"
  using assms by (simp add: py_index_def Let_def)

lemma TextFont_single:
  assumes "\<not> font_id > int (length (font_list s)) - 1"
    and "py_index (font_list s) font_id = Inr f"
    and "f c = Some g" and "g < length (img_list s)"
  shows "TextFont font_id position [c] tr s =
     (let info = img_list s ! g;
          r = send_serial (FSIMG (fst info) (fst position) (snd position) (fst (snd info))
                (snd (snd info)) tr @ '';'') s
      in (Inr (fst r), snd r))"
  unfolding TextFont_indexed[OF assms(1,2)]
    TextFont_loop_single[where f=f and c=c and g=g and s=s, OF assms(3,4)]
  by (simp add: Let_def)

text \<open>
  Claim C10. \<open>ShowImage\<close> and \<open>TextFont\<close> reject an ID only when it is greater than the
  registry length minus one. A negative ID \<open>i\<close> whose absolute value does not exceed the
  registry length passes the check and selects the entry counted from the end: the call
  does what the call with ID \<open>length + i\<close> does, so -1 selects the entry registered last.
  \<open>ShowImage\<close> sends the command for the image counted from the end. \<open>TextFont\<close> runs
  its loop over the text with the font counted from the end and finishes as the loop exits;
  for a text of one character whose glyph in that font is a registered image, it sends the
  command for that glyph at the position given. An ID below \<open>-length\<close> is not rejected
  by the check either: indexing raises \<open>IndexError\<close>.
\<close>

theorem negative_id_counts_from_end:
  "(- int (length (img_list s)) \<le> i \<and> i < 0 \<longrightarrow>
      ShowImage i pos tr s = ShowImage (int (length (img_list s)) + i) pos tr s \<and>
      ShowImage i pos tr s =
        (let info = img_list s ! nat (int (length (img_list s)) + i);
             r = RawImage (fst info) pos (snd info) tr s
         in (Inr (fst r), snd r))) \<and>
   (- int (length (font_list s)) \<le> j \<and> j < 0 \<longrightarrow>
      TextFont j pos text tr s = TextFont (int (length (font_list s)) + j) pos text tr s \<and>
      py_index (font_list s) j = Inr (font_list s ! nat (int (length (font_list s)) + j)) \<and>
      TextFont j pos text tr s =
        TextFont_finish (TextFont_loop (font_list s ! nat (int (length (font_list s)) + j))
                           (lcd_w s) (lcd_h s) tr text pos 0 [] s) \<and>
      (\<forall>c g. (font_list s ! nat (int (length (font_list s)) + j)) c = Some g \<and>
             g < length (img_list s) \<longrightarrow>
         TextFont j pos [c] tr s =
           (let info = img_list s ! g;
                r = send_serial (FSIMG (fst info) (fst pos) (snd pos) (fst (snd info))
                      (snd (snd info)) tr @ '';'') s
            in (Inr (fst r), snd r)))) \<and>
   (i > int (length (img_list s)) - 1 \<longrightarrow> ShowImage i pos tr s = (Inr False, s)) \<and>
   (j > int (length (font_list s)) - 1 \<longrightarrow> TextFont j pos text tr s = (Inr False, s)) \<and>
   (i < - int (length (img_list s)) \<longrightarrow> ShowImage i pos tr s = (Inl IndexError, s)) \<and>
   (j < - int (length (font_list s)) \<longrightarrow> TextFont j pos text tr s = (Inl IndexError, s))"
proof -
  have a: "- int (length (img_list s)) \<le> i \<and> i < 0 \<longrightarrow>
      ShowImage i pos tr s = ShowImage (int (length (img_list s)) + i) pos tr s \<and>
      ShowImage i pos tr s =
        (let info = img_list s ! nat (int (length (img_list s)) + i);
             r = RawImage (fst info) pos (snd info) tr s
         in (Inr (fst r), snd r))"
    using py_index_negative[of "img_list s" i]
    by (auto simp: ShowImage_def split_beta Let_def)
  have b: "TextFont j pos text tr s = TextFont (int (length (font_list s)) + j) pos text tr s \<and>
      py_index (font_list s) j = Inr (font_list s ! nat (int (length (font_list s)) + j)) \<and>
      TextFont j pos text tr s =
        TextFont_finish (TextFont_loop (font_list s ! nat (int (length (font_list s)) + j))
                           (lcd_w s) (lcd_h s) tr text pos 0 [] s) \<and>
      (\<forall>c g. (font_list s ! nat (int (length (font_list s)) + j)) c = Some g \<and>
             g < length (img_list s) \<longrightarrow>
         TextFont j pos [c] tr s =
           (let info = img_list s ! g;
                r = send_serial (FSIMG (fst info) (fst pos) (snd pos) (fst (snd info))
                      (snd (snd info)) tr @ '';'') s
            in (Inr (fst r), snd r)))"
    if h: "- int (length (font_list s)) \<le> j \<and> j < 0"
  proof -
    from h have lo: "- int (length (font_list s)) \<le> j" and neg: "j < 0" by simp_all
    note ix = py_index_negative[OF lo neg]
    have ok: "\<not> j > int (length (font_list s)) - 1" using neg by simp
    have ok': "\<not> int (length (font_list s)) + j > int (length (font_list s)) - 1"
      using neg by simp
    have e1: "TextFont j pos text tr s =
        TextFont_finish (TextFont_loop (font_list s ! nat (int (length (font_list s)) + j))
                           (lcd_w s) (lcd_h s) tr text pos 0 [] s)"
      by (rule TextFont_indexed[OF ok ix[THEN conjunct1]])
    have e2: "TextFont (int (length (font_list s)) + j) pos text tr s =
        TextFont_finish (TextFont_loop (font_list s ! nat (int (length (font_list s)) + j))
                           (lcd_w s) (lcd_h s) tr text pos 0 [] s)"
      by (rule TextFont_indexed[OF ok' ix[THEN conjunct2]])
    have e3: "TextFont j pos [c] tr s =
           (let info = img_list s ! g;
                r = send_serial (FSIMG (fst info) (fst pos) (snd pos) (fst (snd info))
                      (snd (snd info)) tr @ '';'') s
            in (Inr (fst r), snd r))"
      if "(font_list s ! nat (int (length (font_list s)) + j)) c = Some g \<and>
             g < length (img_list s)" for c g
      using that by (intro TextFont_single[OF ok ix[THEN conjunct1]]) simp_all
    from e1 e2 e3 ix show ?thesis by (simp only:) blast
  qed
  have c: "i > int (length (img_list s)) - 1 \<longrightarrow> ShowImage i pos tr s = (Inr False, s)"
    by (simp add: ShowImage_def)
  have d: "j > int (length (font_list s)) - 1 \<longrightarrow> TextFont j pos text tr s = (Inr False, s)"
    by (simp add: TextFont_def)
  have e: "i < - int (length (img_list s)) \<longrightarrow> ShowImage i pos tr s = (Inl IndexError, s)"
    by (auto simp: ShowImage_def py_index_def)
  have f: "j < - int (length (font_list s)) \<longrightarrow> TextFont j pos text tr s = (Inl IndexError, s)"
    by (auto simp: TextFont_def py_index_def)
  from a b c d e f show ?thesis by blast
qed

lemma FSIMG_last_glyph: "FSIMG 2098816 3 4 8 8 0 = ''FSIMG(2098816,3,4,8,8,0)''"
  by (simp add: FSIMG_def str_int_eval)

lemma FSIMG_first_glyph: "FSIMG 2097792 3 4 16 16 0 = ''FSIMG(2097792,3,4,16,16,0)''"
  by (simp add: FSIMG_def str_int_eval)

text \<open>
  On the session with five images and two fonts: image ID -1 selects image 4, the last one;
  font ID -1 selects font 1, whose glyph for \<open>A\<close> is image 4, and font ID -2 selects font
  0, whose glyph for \<open>A\<close> is image 2; IDs 5 and 2 are rejected; IDs -6 and -3 raise.
\<close>

theorem negative_id_counts_from_end_witness:
  "- int (length (img_list two_font_session)) \<le> - 1 \<and> (- 1 :: int) < 0 \<and>
   ShowImage (- 1) (3, 4) 0 two_font_session = ShowImage 4 (3, 4) 0 two_font_session \<and>
   last (writes_of (trace (ser (snd (ShowImage (- 1) (3, 4) 0 two_font_session))))) =
     ''FSIMG(2098816,3,4,8,8,0)'' @ CRLF \<and>
   - int (length (font_list two_font_session)) \<le> - 1 \<and>
   TextFont (- 1) (3, 4) ''A'' 0 two_font_session = TextFont 1 (3, 4) ''A'' 0 two_font_session \<and>
   last (writes_of (trace (ser (snd (TextFont (- 1) (3, 4) ''A'' 0 two_font_session))))) =
     ''FSIMG(2098816,3,4,8,8,0);'' @ CRLF \<and>
   - int (length (font_list two_font_session)) \<le> - 2 \<and> (- 2 :: int) < 0 \<and>
   TextFont (- 2) (3, 4) ''A'' 0 two_font_session = TextFont 0 (3, 4) ''A'' 0 two_font_session \<and>
   last (writes_of (trace (ser (snd (TextFont (- 2) (3, 4) ''A'' 0 two_font_session))))) =
     ''FSIMG(2097792,3,4,16,16,0);'' @ CRLF \<and>
   5 > int (length (img_list two_font_session)) - 1 \<and>
   ShowImage 5 (3, 4) 0 two_font_session = (Inr False, two_font_session) \<and>
   2 > int (length (font_list two_font_session)) - 1 \<and>
   TextFont 2 (3, 4) ''A'' 0 two_font_session = (Inr False, two_font_session) \<and>
   - 6 < - int (length (img_list two_font_session)) \<and>
   ShowImage (- 6) (3, 4) 0 two_font_session = (Inl IndexError, two_font_session) \<and>
   - 3 < - int (length (font_list two_font_session)) \<and>
   TextFont (- 3) (3, 4) ''A'' 0 two_font_session = (Inl IndexError, two_font_session)"
proof -
  let ?e = two_font_session
  have li: "int (length (img_list ?e)) = 5"
    by (simp add: two_font_session_img_list)
  have lf: "int (length (font_list ?e)) = 2"
    by (simp add: two_font_session_font_list)
  note T1 = negative_id_counts_from_end[of ?e "- 1" "(3, 4)" 0 "- 1" "''A''",
      unfolded Let_def li lf]
  note T1' = negative_id_counts_from_end[of ?e "- 1" "(3, 4)" 0 "- 2" "''A''",
      unfolded Let_def li lf]
  note T2 = negative_id_counts_from_end[of ?e 5 "(3, 4)" 0 2 "''A''",
      unfolded Let_def li lf]
  note T3 = negative_id_counts_from_end[of ?e "- 6" "(3, 4)" 0 "- 3" "''A''",
      unfolded Let_def li lf]
  have hyp1: "- (5::int) \<le> - 1 \<and> (- 1 :: int) < 0" by simp
  have hyp1f: "- (2::int) \<le> - 1 \<and> (- 1 :: int) < 0" by simp
  have hyp1g: "- (2::int) \<le> - 2 \<and> (- 2 :: int) < 0" by simp
  note S1 = T1[THEN conjunct1, rule_format, OF hyp1]
  note F1 = T1[THEN conjunct2, THEN conjunct1, rule_format, OF hyp1f]
  note F2 = T1'[THEN conjunct2, THEN conjunct1, rule_format, OF hyp1g]
  have n4: "img_list ?e ! nat (5 + - 1) = (2098816, (8, 8))"
    by (simp add: two_font_session_img_list)
  have c: "last (writes_of (trace (ser (snd (ShowImage (- 1) (3, 4) 0 ?e))))) =
     ''FSIMG(2098816,3,4,8,8,0)'' @ CRLF"
    unfolding S1[THEN conjunct2] n4
    by (simp add: RawImage_def send_serial_writes FSIMG_last_glyph)
  have g1: "(font_list ?e ! nat (2 + - 1)) (CHR ''A'') = Some 4 \<and> 4 < length (img_list ?e)"
    by (simp add: two_font_session_font_list two_font_session_img_list)
  have g2: "(font_list ?e ! nat (2 + - 2)) (CHR ''A'') = Some 2 \<and> 2 < length (img_list ?e)"
    by (simp add: two_font_session_font_list two_font_session_img_list)
  have i4: "img_list ?e ! 4 = (2098816, (8, 8))" by (simp add: two_font_session_img_list)
  have i2: "img_list ?e ! 2 = (2097792, (16, 16))" by (simp add: two_font_session_img_list)
  note W1 = F1[THEN conjunct2, THEN conjunct2, THEN conjunct2, rule_format, OF g1]
  note W2 = F2[THEN conjunct2, THEN conjunct2, THEN conjunct2, rule_format, OF g2]
  have w1: "last (writes_of (trace (ser (snd (TextFont (- 1) (3, 4) ''A'' 0 ?e))))) =
     ''FSIMG(2098816,3,4,8,8,0);'' @ CRLF"
    unfolding W1 i4 by (simp add: send_serial_writes FSIMG_last_glyph)
  have w2: "last (writes_of (trace (ser (snd (TextFont (- 2) (3, 4) ''A'' 0 ?e))))) =
     ''FSIMG(2097792,3,4,16,16,0);'' @ CRLF"
    unfolding W2 i2 by (simp add: send_serial_writes FSIMG_first_glyph)
  have hyp2: "(5::int) > 5 - 1" "(2::int) > 2 - 1" by simp_all
  note e = T2[THEN conjunct2, THEN conjunct2, THEN conjunct1, rule_format, OF hyp2(1)]
  note f = T2[THEN conjunct2, THEN conjunct2, THEN conjunct2, THEN conjunct1, rule_format,
      OF hyp2(2)]
  have hyp3: "(- 6 :: int) < - 5" "(- 3 :: int) < - 2" by simp_all
  note g = T3[THEN conjunct2, THEN conjunct2, THEN conjunct2, THEN conjunct2, THEN conjunct1,
      rule_format, OF hyp3(1)]
  note h = T3[THEN conjunct2, THEN conjunct2, THEN conjunct2, THEN conjunct2, THEN conjunct2,
      rule_format, OF hyp3(2)]
  have a': "ShowImage (- 1) (3, 4) 0 ?e = ShowImage 4 (3, 4) 0 ?e"
    using S1[THEN conjunct1] by simp
  have d1: "TextFont (- 1) (3, 4) ''A'' 0 ?e = TextFont 1 (3, 4) ''A'' 0 ?e"
    using F1[THEN conjunct1] by simp
  have d2: "TextFont (- 2) (3, 4) ''A'' 0 ?e = TextFont 0 (3, 4) ''A'' 0 ?e"
    using F2[THEN conjunct1] by simp
  show ?thesis
    unfolding li lf
    apply (intro conjI)
                       apply simp
                      apply simp
                     apply (rule a')
                    apply (rule c)
                   apply simp
                  apply (rule d1)
                 apply (rule w1)
                apply simp
               apply simp
              apply (rule d2)
             apply (rule w2)
            apply simp
           apply (rule e)
          apply simp
         apply (rule f)
        apply simp
       apply (rule g)
      apply simp
     apply (rule h)
    done
qed

section \<open>The resource allocator\<close>

lemma ListImage_unfold:
  "ListImage sz s =
     (length (img_list s),
      s\<lparr>img_list := img_list s @ [(img_offset s, sz)],
        img_offset := img_offset s + fst sz * snd sz * 2\<rparr>)"
  by (simp add: ListImage_def Let_def)

lemma register_all_img_offset:
  "img_offset (register_all sizes s) =
     img_offset s + (\<Sum>sz\<leftarrow>sizes. fst sz * snd sz * 2)"
  by (induction sizes arbitrary: s) (simp_all add: ListImage_unfold)

lemma register_all_img_list:
  "img_list (register_all sizes s) = img_list s @ allocated (img_offset s) sizes"
  by (induction sizes arbitrary: s) (simp_all add: ListImage_unfold)

lemma length_allocated: "length (allocated a sizes) = length sizes"
  by (induction sizes arbitrary: a) simp_all

lemma allocated_nth:
  "i < length sizes \<Longrightarrow>
   allocated a sizes ! i = (a + (\<Sum>sz\<leftarrow>take i sizes. fst sz * snd sz * 2), sizes ! i)"
proof (induction sizes arbitrary: a i)
  case Nil
  then show ?case by simp
next
  case (Cons sz sizes)
  show ?case
  proof (cases i)
    case 0
    then show ?thesis by simp
  next
    case (Suc k)
    with Cons.prems have "k < length sizes" by simp
    from Cons.IH[OF this] Suc show ?thesis by simp
  qed
qed

lemma sum_take_Suc:
  "i < length sizes \<Longrightarrow>
   (\<Sum>sz\<leftarrow>take (Suc i) sizes. fst sz * snd sz * 2) =
   (\<Sum>sz\<leftarrow>take i sizes. fst sz * snd sz * 2) + fst (sizes ! i) * snd (sizes ! i) * 2"
  by (simp add: take_Suc_conv_app_nth)

lemma sum_take_mono:
  fixes sizes :: "(int \<times> int) list"
  assumes "\<forall>sz \<in> set sizes. 0 \<le> fst sz \<and> 0 \<le> snd sz"
    and "i \<le> j" and "j \<le> length sizes"
  shows "(\<Sum>sz\<leftarrow>take i sizes. fst sz * snd sz * 2) \<le> (\<Sum>sz\<leftarrow>take j sizes. fst sz * snd sz * 2)"
  using assms(2,3)
proof (induction j)
  case 0
  then show ?case by simp
next
  case (Suc j)
  show ?case
  proof (cases "i = Suc j")
    case True
    then show ?thesis by simp
  next
    case False
    with Suc.prems have le: "i \<le> j" and lt: "j < length sizes" by simp_all
    from lt have "sizes ! j \<in> set sizes" by simp
    with assms(1) have "0 \<le> fst (sizes ! j) * snd (sizes ! j) * 2" by simp
    moreover from Suc.IH[OF le] lt
    have "(\<Sum>sz\<leftarrow>take i sizes. fst sz * snd sz * 2) \<le> (\<Sum>sz\<leftarrow>take j sizes. fst sz * snd sz * 2)"
      by simp
    ultimately show ?thesis using sum_take_Suc[OF lt] by simp
  qed
qed

lemma no_overlap:
  fixes sizes :: "(int \<times> int) list"
  assumes "\<forall>sz \<in> set sizes. 0 \<le> fst sz \<and> 0 \<le> snd sz"
    and "i < j" and "j \<le> length sizes"
  shows "(\<Sum>sz\<leftarrow>take i sizes. fst sz * snd sz * 2) + fst (sizes ! i) * snd (sizes ! i) * 2
         \<le> (\<Sum>sz\<leftarrow>take j sizes. fst sz * snd sz * 2)"
proof -
  from assms(2,3) have lt: "i < length sizes" and le: "Suc i \<le> j" by simp_all
  from sum_take_mono[OF assms(1) le assms(3)] sum_take_Suc[OF lt] show ?thesis by simp
qed

lemma strictly_increasing:
  fixes sizes :: "(int \<times> int) list"
  assumes "\<forall>sz \<in> set sizes. 0 < fst sz \<and> 0 < snd sz" and "i < length sizes"
  shows "(\<Sum>sz\<leftarrow>take i sizes. fst sz * snd sz * 2) < (\<Sum>sz\<leftarrow>take (Suc i) sizes. fst sz * snd sz * 2)"
proof -
  from assms(2) have "sizes ! i \<in> set sizes" by simp
  with assms(1) have "0 < fst (sizes ! i) * snd (sizes ! i) * 2" by simp
  with sum_take_Suc[OF assms(2)] show ?thesis by simp
qed

lemma frame_same_registry: "frame s s' \<Longrightarrow> same_registry s s'"
  by (simp add: frame_def same_registry_def)

lemma same_registry_send: "same_registry s (snd (send_serial cmd s))"
  by (rule frame_same_registry) (rule send_serial_frame)

lemma same_registry_ReadBack: "same_registry s (snd (ReadBack s))"
  by (rule frame_same_registry) (rule ReadBack_frame)

lemma same_registry_Baudrate: "same_registry s (snd (Baudrate rate s))"
  using same_registry_send[of s "''BPS('' @ str_int rate @ '')''"]
  by (simp add: Baudrate_def split_beta Let_def log_event_def same_registry_def)

lemma same_registry_Orientation: "same_registry s (snd (Orientation orientation s))"
proof -
  have "same_registry s (snd (send_serial cmd (s\<lparr>current_orientation := v\<rparr>)))" for cmd v
    using same_registry_send[of "s\<lparr>current_orientation := v\<rparr>" cmd]
    by (simp add: same_registry_def)
  then show ?thesis by (simp add: Orientation_def same_registry_def)
qed

lemma same_registry_Brightness: "same_registry s (snd (Brightness level s))"
  using same_registry_send[of s]
  by (cases level) (simp_all add: Brightness_def same_registry_def split: option.splits)

lemma same_registry_MoveTo: "same_registry s (snd (MoveTo position s))"
  by (simp add: MoveTo_def same_registry_def)

lemma same_registry_LineTo: "same_registry s (snd (LineTo position color s))"
  using same_registry_send[of s]
  by (simp add: LineTo_def MoveTo_def Line_def split_beta Let_def same_registry_def)

lemma same_registry_ShowImage: "same_registry s (snd (ShowImage image_id position transparent s))"
  using same_registry_send[of s]
  by (simp add: ShowImage_def RawImage_def split_beta Let_def same_registry_def
      split: sum.splits)

lemma TextFont_loop_frame:
  "frame s (snd (TextFont_loop this_font lw lh transparent text xy i send_str s))"
proof (induction "text" arbitrary: xy i send_str s)
  case Nil
  show ?case by (simp add: frame_refl)
next
  case (Cons c cs)
  show ?case
  proof (cases "this_font c")
    case None
    then show ?thesis using Cons.IH by simp
  next
    case (Some g)
    show ?thesis
    proof (cases "py_index (img_list s) (int g)")
      case (Inl e)
      with Some show ?thesis by (simp add: frame_refl)
    next
      case (Inr img_info)
      define cmd where "cmd = send_str @ FSIMG (fst img_info) (fst xy) (snd xy)
          (fst (snd img_info)) (snd (snd img_info)) transparent @ '';''"
      define xy1 where "xy1 = TextFont_advance lw lh (snd img_info) xy"
      show ?thesis
      proof (cases "i + 1 \<ge> 16")
        case True
        have f1: "frame s (snd (send_serial cmd s))" by (rule send_serial_frame)
        have f2: "frame (snd (send_serial cmd s))
                    (snd (TextFont_loop this_font lw lh transparent cs xy1 0 []
                           (snd (send_serial cmd s))))"
          by (rule Cons.IH)
        from f1 f2 have f3: "frame s
                    (snd (TextFont_loop this_font lw lh transparent cs xy1 0 []
                           (snd (send_serial cmd s))))"
          by (rule frame_trans)
        from True Some Inr f1 f3 show ?thesis
          by (simp add: Let_def split_beta cmd_def xy1_def)
      next
        case False
        have "frame s (snd (TextFont_loop this_font lw lh transparent cs xy1 (i + 1) cmd s))"
          by (rule Cons.IH)
        with False Some Inr show ?thesis
          by (simp add: Let_def cmd_def xy1_def)
      qed
    qed
  qed
qed

lemma TextFont_frame: "frame s (snd (TextFont font_id position text transparent s))"
proof -
  have a: "frame s (snd (TextFont_loop f w h transparent text position 0 [] s))" for f w h
    by (rule TextFont_loop_frame)
  have b: "frame s (snd (send_serial cmd (snd (TextFont_loop f w h transparent text position 0 [] s))))"
    for f w h cmd
    using a send_serial_frame by (rule frame_trans)
  show ?thesis
    using a b
    by (simp add: TextFont_def Let_def split_beta frame_refl
        split: sum.splits loop_exit.splits prod.splits)
qed

lemma ListFont_loop_registry:
  "0 \<le> fst char_size \<and> 0 \<le> snd char_size \<Longrightarrow>
   img_offset s \<le> img_offset (snd (ListFont_loop char_size cl f s)) \<and>
   prefix (img_list s) (img_list (snd (ListFont_loop char_size cl f s)))"
proof (induction cl arbitrary: f s)
  case Nil
  show ?case by simp
next
  case (Cons c cs)
  define s1 where "s1 = snd (ListImage char_size s)"
  from Cons.prems have "0 \<le> fst char_size * snd char_size * 2" by simp
  then have a: "img_offset s \<le> img_offset s1" "prefix (img_list s) (img_list s1)"
    by (simp_all add: s1_def ListImage_unfold)
  note ih = Cons.IH[OF Cons.prems, of s1 "f(c \<mapsto> fst (ListImage char_size s))"]
  note b = ih[THEN conjunct1] and c = ih[THEN conjunct2]
  from a(1) b have "img_offset s \<le> img_offset (snd (ListFont_loop char_size cs
              (f(c \<mapsto> fst (ListImage char_size s))) s1))"
    by (rule order_trans)
  moreover from a(2) c have "prefix (img_list s) (img_list (snd (ListFont_loop char_size cs
              (f(c \<mapsto> fst (ListImage char_size s))) s1)))"
    by (rule prefix_order.trans)
  ultimately show ?case
    by (simp add: split_beta s1_def)
qed

lemma run_call_registry:
  "valid_sizes c \<Longrightarrow>
   img_offset s \<le> img_offset (run_call c s) \<and> prefix (img_list s) (img_list (run_call c s))"
proof (cases c)
  case (CallListImage sz)
  assume "valid_sizes c"
  with CallListImage have "0 \<le> fst sz * snd sz * 2" by simp
  with CallListImage show ?thesis by (simp add: ListImage_unfold)
next
  case (CallListFont char_size char_list)
  assume "valid_sizes c"
  with CallListFont have "0 \<le> fst char_size \<and> 0 \<le> snd char_size" by simp
  from ListFont_loop_registry[OF this, of s char_list Map.empty] CallListFont show ?thesis
    by (simp add: ListFont_def split_beta Let_def)
next
  case (CallTextFont font_id position str transparent)
  with TextFont_frame[of s font_id position str transparent] show ?thesis
    by (simp add: frame_def)
qed (use same_registry_send[of s] same_registry_ReadBack[of s] same_registry_Baudrate[of s]
      same_registry_Orientation[of s] same_registry_Brightness[of s] same_registry_MoveTo[of s]
      same_registry_LineTo[of s] same_registry_ShowImage[of s]
     in \<open>simp_all add: same_registry_def Reset_def Version_def Clear_def On_def RawImage_def
      Point_def Line_def HollowBox_def FilledBox_def HollowCircle_def FilledCircle_def
      Background_def TextSmall_def TextMedium_def TextLarge_def\<close>)

text \<open>
  Claim C3. One registration returns the index of the new entry, appends the entry
  (cursor, size) and advances the memory cursor by exactly width*height*2. After the
  registrations of a sequence of sizes the cursor is the cursor before plus the sum of the
  byte lengths, which is 2097152 plus that sum on a fresh session; the entries appended are
  the sizes in order, each at the address where the previous one ends. For positive sizes
  the cursor strictly increases with each registration. For sizes that are not negative
  the byte range of each new entry ends at or before the address of every later one and at
  or before the cursor, so no two ranges overlap. No call of any method with valid sizes
  decreases the cursor or removes or changes an entry of the image registry.
\<close>

theorem ListImage_allocation:
  "ListImage sz s =
     (length (img_list s),
      s\<lparr>img_list := img_list s @ [(img_offset s, sz)],
        img_offset := img_offset s + fst sz * snd sz * 2\<rparr>) \<and>
   img_offset (register_all sizes s) =
     img_offset s + (\<Sum>sz\<leftarrow>sizes. fst sz * snd sz * 2) \<and>
   img_offset (register_all sizes (SunLCD_init port width height)) =
     2097152 + (\<Sum>sz\<leftarrow>sizes. fst sz * snd sz * 2) \<and>
   img_list (register_all sizes s) = img_list s @ allocated (img_offset s) sizes \<and>
   (\<forall>i < length sizes.
      allocated (img_offset s) sizes ! i =
        (img_offset s + (\<Sum>sz\<leftarrow>take i sizes. fst sz * snd sz * 2), sizes ! i)) \<and>
   ((\<forall>sz \<in> set sizes. 0 < fst sz \<and> 0 < snd sz) \<longrightarrow>
      (\<forall>i < length sizes.
         img_offset (register_all (take i sizes) s) <
         img_offset (register_all (take (Suc i) sizes) s))) \<and>
   ((\<forall>sz \<in> set sizes. 0 \<le> fst sz \<and> 0 \<le> snd sz) \<longrightarrow>
      (\<forall>i j. i < j \<and> j < length sizes \<longrightarrow>
         fst (allocated (img_offset s) sizes ! i) + fst (sizes ! i) * snd (sizes ! i) * 2
           \<le> fst (allocated (img_offset s) sizes ! j)) \<and>
      (\<forall>i < length sizes.
         fst (allocated (img_offset s) sizes ! i) + fst (sizes ! i) * snd (sizes ! i) * 2
           \<le> img_offset (register_all sizes s))) \<and>
   (valid_sizes c \<longrightarrow>
      img_offset s \<le> img_offset (run_call c s) \<and>
      prefix (img_list s) (img_list (run_call c s)))"
proof -
  have fresh: "img_offset (register_all sizes (SunLCD_init port width height)) =
     2097152 + (\<Sum>sz\<leftarrow>sizes. fst sz * snd sz * 2)"
    using SunLCD_init_frame[of port width height] by (simp add: register_all_img_offset)
  have nth: "\<forall>i < length sizes.
      allocated (img_offset s) sizes ! i =
        (img_offset s + (\<Sum>sz\<leftarrow>take i sizes. fst sz * snd sz * 2), sizes ! i)"
    by (simp add: allocated_nth)
  have strict: "\<forall>i < length sizes.
         img_offset (register_all (take i sizes) s) <
         img_offset (register_all (take (Suc i) sizes) s)"
    if "\<forall>sz \<in> set sizes. 0 < fst sz \<and> 0 < snd sz"
    using strictly_increasing[OF that] by (simp add: register_all_img_offset)
  have disjoint: "(\<forall>i j. i < j \<and> j < length sizes \<longrightarrow>
         fst (allocated (img_offset s) sizes ! i) + fst (sizes ! i) * snd (sizes ! i) * 2
           \<le> fst (allocated (img_offset s) sizes ! j)) \<and>
      (\<forall>i < length sizes.
         fst (allocated (img_offset s) sizes ! i) + fst (sizes ! i) * snd (sizes ! i) * 2
           \<le> img_offset (register_all sizes s))"
    if v: "\<forall>sz \<in> set sizes. 0 \<le> fst sz \<and> 0 \<le> snd sz"
  proof (intro conjI allI impI)
    fix i j
    assume ij: "i < j \<and> j < length sizes"
    then have "i < length sizes" "j \<le> length sizes" "i < j" by simp_all
    with no_overlap[OF v, of i j] ij show
      "fst (allocated (img_offset s) sizes ! i) + fst (sizes ! i) * snd (sizes ! i) * 2
           \<le> fst (allocated (img_offset s) sizes ! j)"
      by (simp add: allocated_nth)
  next
    fix i
    assume i: "i < length sizes"
    from no_overlap[OF v, of i "length sizes"] i show
      "fst (allocated (img_offset s) sizes ! i) + fst (sizes ! i) * snd (sizes ! i) * 2
           \<le> img_offset (register_all sizes s)"
      by (simp add: allocated_nth register_all_img_offset)
  qed
  show ?thesis
    using ListImage_unfold[of sz s] register_all_img_offset[of sizes s] fresh
      register_all_img_list[of sizes s] nth strict disjoint run_call_registry[of c s]
    by blast
qed

text \<open>Two registrations of sizes (16,16) and (8,8) on a fresh session, and a font
  registration.\<close>

theorem ListImage_allocation_witness:
  "(0 :: int) < 16 \<and> (0 :: int) < 8 \<and>
   valid_sizes (CallListFont (16, 16) ''AB'') \<and>
   img_offset (register_all [(16, 16), (8, 8)] (SunLCD_init [] 240 320)) = 2097792 \<and>
   img_list (register_all [(16, 16), (8, 8)] (SunLCD_init [] 240 320)) =
     [(2097152, (16, 16)), (2097664, (8, 8))] \<and>
   img_offset (register_all [(16, 16)] (SunLCD_init [] 240 320)) <
     img_offset (register_all [(16, 16), (8, 8)] (SunLCD_init [] 240 320)) \<and>
   img_offset (SunLCD_init [] 240 320) \<le>
     img_offset (run_call (CallListFont (16, 16) ''AB'') (SunLCD_init [] 240 320))"
proof -
  let ?s = "SunLCD_init [] 240 320"
  let ?sizes = "[(16 :: int, 16 :: int), (8, 8)]"
  note T = ListImage_allocation[of "(16, 16)" ?s ?sizes "[]" 240 320 "CallListFont (16, 16) ''AB''"]
  have p: "\<forall>sz \<in> set ?sizes. 0 < fst sz \<and> 0 < snd sz" by simp
  have n: "\<forall>sz \<in> set ?sizes. 0 \<le> fst sz \<and> 0 \<le> snd sz" by simp
  have v: "valid_sizes (CallListFont (16, 16) ''AB'')" by simp
  have i0: "img_list ?s = []" "img_offset ?s = 2097152"
    using SunLCD_init_frame[of "[]" 240 320] by simp_all
  from T have a: "img_offset (register_all ?sizes ?s) = 2097152 + (\<Sum>sz\<leftarrow>?sizes. fst sz * snd sz * 2)"
    by blast
  then have a': "img_offset (register_all ?sizes ?s) = 2097792" by simp
  from T have b: "img_list (register_all ?sizes ?s) = img_list ?s @ allocated (img_offset ?s) ?sizes"
    by blast
  then have b': "img_list (register_all ?sizes ?s) = [(2097152, (16, 16)), (2097664, (8, 8))]"
    by (simp add: i0)
  from T p have S: "\<forall>i < length ?sizes.
         img_offset (register_all (take i ?sizes) ?s) <
         img_offset (register_all (take (Suc i) ?sizes) ?s)"
    by blast
  have "(1::nat) < length ?sizes" by simp
  from S[rule_format, OF this]
  have c: "img_offset (register_all [(16, 16)] ?s) < img_offset (register_all ?sizes ?s)"
    by simp
  from T v have d: "img_offset ?s \<le> img_offset (run_call (CallListFont (16, 16) ''AB'') ?s)"
    by blast
  from v a' b' c d show ?thesis by simp
qed

section \<open>The text layout engine\<close>

lemma py_index_nat: "g < length xs \<Longrightarrow> py_index xs (int g) = Inr (xs ! g)"
  by (simp add: py_index_def)

lemma send_serial_img_list: "img_list (snd (send_serial cmd s)) = img_list s"
  using send_serial_frame[of s cmd] by (simp add: frame_def)

lemma TextFont_loop_batch_loop:
  "\<forall>c \<in> set str. \<forall>g. f c = Some g \<longrightarrow> g < length (img_list s) \<Longrightarrow>
   TextFont_loop f lw lh tr str xy i send_str s =
     batch_loop (glyph_commands f (img_list s) lw lh tr str xy) i send_str s"
proof (induction str arbitrary: xy i send_str s)
  case Nil
  show ?case by simp
next
  case (Cons c cs)
  from Cons.prems have rest: "\<forall>c \<in> set cs. \<forall>g. f c = Some g \<longrightarrow> g < length (img_list s)"
    by simp
  show ?case
  proof (cases "f c")
    case None
    with Cons.IH[OF rest] show ?thesis by simp
  next
    case (Some g)
    with Cons.prems have g: "g < length (img_list s)" by simp
    define cmd where "cmd = FSIMG (fst (img_list s ! g)) (fst xy) (snd xy)
        (fst (snd (img_list s ! g))) (snd (snd (img_list s ! g))) tr @ '';''"
    define xy1 where "xy1 = TextFont_advance lw lh (snd (img_list s ! g)) xy"
    define s1 where "s1 = snd (send_serial (send_str @ cmd) s)"
    have gc: "glyph_commands f (img_list s) lw lh tr (c # cs) xy =
        cmd # glyph_commands f (img_list s) lw lh tr cs xy1"
      by (simp add: Some cmd_def xy1_def)
    show ?thesis
    proof (cases "i + 1 \<ge> 16")
      case True
      have il: "img_list s1 = img_list s" by (simp add: s1_def send_serial_img_list)
      with rest have "\<forall>c \<in> set cs. \<forall>g. f c = Some g \<longrightarrow> g < length (img_list s1)"
        by simp
      from Cons.IH[OF this, of xy1 0 "[]"] il
      have ih: "TextFont_loop f lw lh tr cs xy1 0 [] s1 =
          batch_loop (glyph_commands f (img_list s) lw lh tr cs xy1) 0 [] s1"
        by simp
      have "TextFont_loop f lw lh tr (c # cs) xy i send_str s =
          (if fst (send_serial (send_str @ cmd) s)
           then TextFont_loop f lw lh tr cs xy1 0 [] s1 else (Returned False, s1))"
        using True Some py_index_nat[OF g]
        by (simp add: Let_def split_beta cmd_def xy1_def s1_def)
      also have "\<dots> = batch_loop (glyph_commands f (img_list s) lw lh tr (c # cs) xy) i send_str s"
        unfolding gc using True by (simp add: ih[unfolded s1_def] s1_def)
      finally show ?thesis .
    next
      case False
      have "TextFont_loop f lw lh tr (c # cs) xy i send_str s =
          TextFont_loop f lw lh tr cs xy1 (i + 1) (send_str @ cmd) s"
        using False Some py_index_nat[OF g]
        by (simp add: Let_def cmd_def xy1_def)
      also have "\<dots> = batch_loop (glyph_commands f (img_list s) lw lh tr cs xy1) (i + 1)
          (send_str @ cmd) s"
        by (rule Cons.IH[OF rest])
      also have "\<dots> = batch_loop (glyph_commands f (img_list s) lw lh tr (c # cs) xy) i send_str s"
        unfolding gc using False by simp
      finally show ?thesis .
    qed
  qed
qed

lemma batch_loop_no_flush:
  "i + length cmds < 16 \<Longrightarrow> batch_loop cmds i send_str s = (Completed (send_str @ concat cmds), s)"
  by (induction cmds arbitrary: i send_str) simp_all

lemma batch_loop_flush:
  "i < 16 \<Longrightarrow> 16 \<le> i + length cmds \<Longrightarrow>
   batch_loop cmds i send_str s =
     (if fst (send_serial (send_str @ concat (take (16 - i) cmds)) s)
      then batch_loop (drop (16 - i) cmds) 0 []
             (snd (send_serial (send_str @ concat (take (16 - i) cmds)) s))
      else (Returned False, snd (send_serial (send_str @ concat (take (16 - i) cmds)) s)))"
proof (induction cmds arbitrary: i send_str)
  case Nil
  then show ?case by simp
next
  case (Cons cmd cmds)
  show ?case
  proof (cases "i + 1 \<ge> 16")
    case True
    with Cons.prems have "i = 15" by simp
    then show ?thesis by simp
  next
    case False
    then have a: "i + 1 < 16" by simp
    from Cons.prems have b: "16 \<le> (i + 1) + length cmds" by simp
    have t: "take (16 - i) (cmd # cmds) = cmd # take (16 - (i + 1)) cmds"
      and d: "drop (16 - i) (cmd # cmds) = drop (16 - (i + 1)) cmds"
      using a by (simp_all add: take_Cons' drop_Cons')
    from Cons.IH[OF a b, of "send_str @ cmd"] False show ?thesis
      unfolding t d by simp
  qed
qed

lemma batches_Nil: "batches [] = []"
  by (simp add: batches.simps)

lemma batches_short: "cmds \<noteq> [] \<Longrightarrow> length cmds \<le> 16 \<Longrightarrow> batches cmds = [cmds]"
  by (subst batches.simps) (simp add: batches_Nil)

lemma batches_long:
  "16 \<le> length cmds \<Longrightarrow> batches cmds = take 16 cmds # batches (drop 16 cmds)"
  by (subst batches.simps) auto

lemma TextFont_finish_batch_loop:
  "\<forall>cmd \<in> set cmds. cmd \<noteq> [] \<Longrightarrow>
   TextFont_finish (batch_loop cmds 0 [] s) =
     (Inr (fst (send_batches (batches cmds) s)), snd (send_batches (batches cmds) s))"
proof (induction "length cmds" arbitrary: cmds s rule: less_induct)
  case less
  show ?case
  proof (cases "length cmds < 16")
    case True
    then have bl: "batch_loop cmds 0 [] s = (Completed (concat cmds), s)"
      using batch_loop_no_flush[of 0 cmds "[]" s] by simp
    show ?thesis
    proof (cases "cmds = []")
      case True
      then show ?thesis by (simp add: batches_Nil)
    next
      case False
      with less.prems have "concat cmds \<noteq> []" by (cases cmds) auto
      moreover from False True have "batches cmds = [cmds]" by (simp add: batches_short)
      ultimately show ?thesis by (simp add: bl)
    qed
  next
    case False
    then have long: "16 \<le> length cmds" by simp
    define s1 where "s1 = snd (send_serial (concat (take 16 cmds)) s)"
    have bl: "batch_loop cmds 0 [] s =
        (if fst (send_serial (concat (take 16 cmds)) s)
         then batch_loop (drop 16 cmds) 0 [] s1 else (Returned False, s1))"
      using batch_loop_flush[of 0 cmds "[]" s] long by (simp add: s1_def)
    have "length (drop 16 cmds) < length cmds" using long by simp
    moreover have "\<forall>cmd \<in> set (drop 16 cmds). cmd \<noteq> []"
      using less.prems by (auto dest: in_set_dropD)
    ultimately have ih: "TextFont_finish (batch_loop (drop 16 cmds) 0 [] s1) =
        (Inr (fst (send_batches (batches (drop 16 cmds)) s1)),
         snd (send_batches (batches (drop 16 cmds)) s1))"
      by (rule less.hyps)
    show ?thesis
      unfolding bl batches_long[OF long]
      by (simp add: ih[unfolded s1_def] s1_def)
  qed
qed

lemma glyph_commands_nonempty:
  "\<forall>cmd \<in> set (glyph_commands f imgs lw lh tr str xy). cmd \<noteq> []"
proof (induction str arbitrary: xy)
  case Nil
  show ?case by simp
next
  case (Cons c cs)
  then show ?case by (cases "f c") simp_all
qed

lemma length_glyph_commands:
  "length (glyph_commands f imgs lw lh tr str xy) = length (filter (\<lambda>c. f c \<noteq> None) str)"
proof (induction str arbitrary: xy)
  case Nil
  show ?case by simp
next
  case (Cons c cs)
  then show ?case by (cases "f c") simp_all
qed

lemma TextFont_valid_font:
  "0 \<le> font_id \<Longrightarrow> font_id < int (length (font_list s)) \<Longrightarrow>
   TextFont font_id position str tr s =
     TextFont_finish (TextFont_loop (font_list s ! nat font_id) (lcd_w s) (lcd_h s) tr str
                        position 0 [] s)"
proof -
  assume a: "0 \<le> font_id" "font_id < int (length (font_list s))"
  then have "py_index (font_list s) font_id = Inr (font_list s ! nat font_id)"
    by (simp add: py_index_def)
  with a show ?thesis
    by (cases "TextFont_loop (font_list s ! nat font_id) (lcd_w s) (lcd_h s) tr str position 0 [] s";
        cases "fst (TextFont_loop (font_list s ! nat font_id) (lcd_w s) (lcd_h s) tr str position 0 [] s)")
       (simp_all add: TextFont_def lcd_w_def lcd_h_def Let_def split_beta)
qed

lemma TextFont_batches:
  assumes "0 \<le> font_id" and "font_id < int (length (font_list s))"
    and "\<forall>c \<in> set str. \<forall>g. (font_list s ! nat font_id) c = Some g \<longrightarrow> g < length (img_list s)"
  shows "TextFont font_id position str tr s =
     (Inr (fst (send_batches (batches (glyph_commands (font_list s ! nat font_id) (img_list s)
                                         (lcd_w s) (lcd_h s) tr str position)) s)),
      snd (send_batches (batches (glyph_commands (font_list s ! nat font_id) (img_list s)
                                         (lcd_w s) (lcd_h s) tr str position)) s))"
  unfolding TextFont_valid_font[OF assms(1,2)] TextFont_loop_batch_loop[OF assms(3)]
  by (rule TextFont_finish_batch_loop) (rule glyph_commands_nonempty)

lemma send_batches_single:
  "send_batches [b] s = send_serial (concat b) s"
  by (cases "send_serial (concat b) s") simp

lemma send_batches_two:
  "send_batches [b1, b2] s =
     (if fst (send_serial (concat b1) s)
      then send_serial (concat b2) (snd (send_serial (concat b1) s))
      else (False, snd (send_serial (concat b1) s)))"
  by (cases "send_serial (concat b2) (snd (send_serial (concat b1) s))") simp

lemma batches_20:
  "length cmds = 20 \<Longrightarrow> batches cmds = [take 16 cmds, drop 16 cmds]"
proof -
  assume l: "length cmds = 20"
  then have "batches cmds = take 16 cmds # batches (drop 16 cmds)"
    by (simp add: batches_long)
  moreover from l have "batches (drop 16 cmds) = [drop 16 cmds]"
    by (intro batches_short) auto
  ultimately show ?thesis by simp
qed

text \<open>
  Claim C5, as amended. For a valid font ID whose glyphs are registered images,
  \<open>TextFont\<close> emits one \<open>FSIMG\<close> command, closed by a semicolon, for each character of the
  text that is in the font, and sends the commands in batches of 16, each batch as one
  transmission, the rest after the loop, stopping with the result \<open>False\<close> at the first
  transmission that times out (what was sent stays sent). A text that gives no glyph command
  causes no transmission and the result \<open>True\<close>; a text that gives at least one and fewer
  than 16 causes exactly one transmission, holding all of them; a text that gives exactly
  20 causes a transmission of the first 16 and, when that one is answered, a second
  transmission of the other 4; when the first one times out the result is \<open>False\<close> and
  nothing more is sent.
\<close>

theorem TextFont_batching:
  assumes "0 \<le> font_id" and "font_id < int (length (font_list s))"
    and "\<forall>c \<in> set str. \<forall>g. (font_list s ! nat font_id) c = Some g \<longrightarrow> g < length (img_list s)"
  shows
    "let cmds = glyph_commands (font_list s ! nat font_id) (img_list s) (lcd_w s) (lcd_h s) tr
                  str position;
         r = TextFont font_id position str tr s;
         r1 = send_serial (concat (take 16 cmds)) s;
         r2 = send_serial (concat (drop 16 cmds)) (snd r1)
     in length cmds = length (filter (\<lambda>c. (font_list s ! nat font_id) c \<noteq> None) str) \<and>
        r = (Inr (fst (send_batches (batches cmds) s)), snd (send_batches (batches cmds) s)) \<and>
        (length cmds = 0 \<longrightarrow> r = (Inr True, s)) \<and>
        (0 < length cmds \<and> length cmds < 16 \<longrightarrow>
           r = (Inr (fst (send_serial (concat cmds) s)), snd (send_serial (concat cmds) s)) \<and>
           writes_of (trace (ser (snd r))) = writes_of (trace (ser s)) @ [concat cmds @ CRLF]) \<and>
        (length cmds = 20 \<longrightarrow>
           length (take 16 cmds) = 16 \<and> length (drop 16 cmds) = 4 \<and>
           (fst r1 \<longrightarrow>
              r = (Inr (fst r2), snd r2) \<and>
              writes_of (trace (ser (snd r))) =
                writes_of (trace (ser s)) @
                  [concat (take 16 cmds) @ CRLF, concat (drop 16 cmds) @ CRLF]) \<and>
           (\<not> fst r1 \<longrightarrow>
              r = (Inr False, snd r1) \<and>
              writes_of (trace (ser (snd r))) =
                writes_of (trace (ser s)) @ [concat (take 16 cmds) @ CRLF]))"
proof -
  define cmds where "cmds = glyph_commands (font_list s ! nat font_id) (img_list s) (lcd_w s)
      (lcd_h s) tr str position"
  define r where "r = TextFont font_id position str tr s"
  define r1 where "r1 = send_serial (concat (take 16 cmds)) s"
  define r2 where "r2 = send_serial (concat (drop 16 cmds)) (snd r1)"
  have len: "length cmds = length (filter (\<lambda>c. (font_list s ! nat font_id) c \<noteq> None) str)"
    by (simp add: cmds_def length_glyph_commands)
  have gen: "r = (Inr (fst (send_batches (batches cmds) s)), snd (send_batches (batches cmds) s))"
    unfolding r_def cmds_def by (rule TextFont_batches[OF assms])
  have none: "r = (Inr True, s)" if "length cmds = 0"
    using that by (simp add: gen batches_Nil)
  have one: "r = (Inr (fst (send_serial (concat cmds) s)), snd (send_serial (concat cmds) s)) \<and>
      writes_of (trace (ser (snd r))) = writes_of (trace (ser s)) @ [concat cmds @ CRLF]"
    if "0 < length cmds \<and> length cmds < 16"
  proof -
    from that have "batches cmds = [cmds]" by (intro batches_short) auto
    then show ?thesis by (simp add: gen send_batches_single send_serial_writes)
  qed
  have two: "length (take 16 cmds) = 16 \<and> length (drop 16 cmds) = 4 \<and>
      (fst r1 \<longrightarrow>
         r = (Inr (fst r2), snd r2) \<and>
         writes_of (trace (ser (snd r))) =
           writes_of (trace (ser s)) @
             [concat (take 16 cmds) @ CRLF, concat (drop 16 cmds) @ CRLF]) \<and>
      (\<not> fst r1 \<longrightarrow>
         r = (Inr False, snd r1) \<and>
         writes_of (trace (ser (snd r))) =
           writes_of (trace (ser s)) @ [concat (take 16 cmds) @ CRLF])"
    if l: "length cmds = 20"
  proof -
    have b: "batches cmds = [take 16 cmds, drop 16 cmds]" using l by (rule batches_20)
    have w1: "writes_of (trace (ser (snd r1))) =
        writes_of (trace (ser s)) @ [concat (take 16 cmds) @ CRLF]"
      by (simp add: r1_def send_serial_writes)
    have w2: "writes_of (trace (ser (snd r2))) =
        writes_of (trace (ser s)) @ [concat (take 16 cmds) @ CRLF, concat (drop 16 cmds) @ CRLF]"
      by (simp add: r2_def send_serial_writes w1)
    have g: "r = (if fst r1 then (Inr (fst r2), snd r2) else (Inr False, snd r1))"
      unfolding gen b send_batches_two by (simp add: r1_def r2_def)
    from l g w1 w2 show ?thesis by simp
  qed
  show ?thesis
    unfolding Let_def cmds_def[symmetric] r_def[symmetric] r1_def[symmetric] r2_def[symmetric]
    using len gen none one two by blast
qed

lemma ListFont_loop_dims:
  "current_orientation (snd (ListFont_loop cs cl f s)) = current_orientation s \<and>
   standard_width (snd (ListFont_loop cs cl f s)) = standard_width s \<and>
   standard_height (snd (ListFont_loop cs cl f s)) = standard_height s \<and>
   ser (snd (ListFont_loop cs cl f s)) = ser s"
  by (induction cl arbitrary: f s) (simp_all add: split_beta ListImage_unfold)

lemma registrations_dims:
  "current_orientation (snd (ListFont cs cl (snd (ListImage a (snd (ListImage b s)))))) =
     current_orientation s \<and>
   standard_width (snd (ListFont cs cl (snd (ListImage a (snd (ListImage b s)))))) =
     standard_width s \<and>
   standard_height (snd (ListFont cs cl (snd (ListImage a (snd (ListImage b s)))))) =
     standard_height s \<and>
   ser (snd (ListFont cs cl (snd (ListImage a (snd (ListImage b s)))))) = ser s"
  by (simp add: ListFont_def split_beta Let_def ListFont_loop_dims ListImage_unfold)

lemma example_session_dims: "lcd_w example_session = 32" "lcd_h example_session = 320"
  unfolding example_session_def lcd_w_def lcd_h_def
  using SunLCD_init_frame[of "replicate 30 (''OK'' @ [LF])" 32 320]
  by (simp_all only: registrations_dims) (simp_all add: VERTICAL_def HORIZONTAL_def)

lemma example_session_glyphs:
  "(font_list example_session ! 0) c = Some g \<Longrightarrow> g < length (img_list example_session)"
  by (simp add: example_session_font_list example_session_img_list split: if_splits)

lemma example_session_port:
  "incoming (ser example_session) = replicate 28 (''OK'' @ [LF])"
  unfolding example_session_def
  by (simp only: registrations_dims) code_simp

lemma example_glyph_commands_AB:
  "glyph_commands (font_list example_session ! 0) (img_list example_session) 32 320 0 ''AB'' (0, 0) =
     [''FSIMG(2097792,0,0,16,16,0);'', ''FSIMG(2098304,0,16,16,16,0);'']"
  by (simp add: example_session_font_list example_session_img_list TextFont_advance_def
      FSIMG_def str_int_eval Let_def)

lemma polled_example: "polled 10 example_session = replicate 10 (''OK'' @ [LF])"
  by (simp add: polled_def example_session_port)

lemma example_answers: "fst (send_serial cmd example_session)"
  by (simp add: send_serial_fst polled_example)

text \<open>
  The empty text, a text of 2 glyphs and a text of 20 glyphs on the example session, and
  the text of 20 glyphs on the same session with a display that never answers.
\<close>

theorem TextFont_batching_witness:
  "(0 :: int) \<le> 0 \<and> 0 < int (length (font_list example_session)) \<and>
   TextFont 0 (0, 0) [] 0 example_session = (Inr True, example_session) \<and>
   writes_of (trace (ser (snd (TextFont 0 (0, 0) ''AB'' 0 example_session)))) =
     writes_of (trace (ser example_session)) @
       [''FSIMG(2097792,0,0,16,16,0);FSIMG(2098304,0,16,16,16,0);'' @ CRLF] \<and>
   length (writes_of (trace (ser (snd (TextFont 0 (0, 0) ''ABABABABABABABABABAB'' 0
       example_session))))) = length (writes_of (trace (ser example_session))) + 2 \<and>
   fst (TextFont 0 (0, 0) ''ABABABABABABABABABAB'' 0
         (example_session\<lparr>ser := (ser example_session)\<lparr>incoming := []\<rparr>\<rparr>)) = Inr False \<and>
   length (writes_of (trace (ser (snd (TextFont 0 (0, 0) ''ABABABABABABABABABAB'' 0
       (example_session\<lparr>ser := (ser example_session)\<lparr>incoming := []\<rparr>\<rparr>)))))) =
     length (writes_of (trace (ser example_session))) + 1"
proof -
  let ?e = example_session
  let ?q = "example_session\<lparr>ser := (ser example_session)\<lparr>incoming := []\<rparr>\<rparr>"
  let ?t = "''ABABABABABABABABABAB''"
  have f0: "(0 :: int) \<le> 0" by simp
  have f1: "0 < int (length (font_list ?e))" by (simp add: example_session_font_list)
  have f1q: "0 < int (length (font_list ?q))" by (simp add: example_session_font_list)
  have g: "\<forall>c \<in> set str. \<forall>g. (font_list ?e ! nat 0) c = Some g \<longrightarrow> g < length (img_list ?e)"
    for str using example_session_glyphs by simp
  have gq: "\<forall>c \<in> set str. \<forall>g. (font_list ?q ! nat 0) c = Some g \<longrightarrow> g < length (img_list ?q)"
    for str using example_session_glyphs by simp
  note E = TextFont_batching[where font_id=0 and s="?e" and str="[]" and tr=0 and position="(0, 0)",
      OF f0 f1 g, unfolded Let_def]
  note A = TextFont_batching[where font_id=0 and s="?e" and str="''AB''" and tr=0 and
      position="(0, 0)", OF f0 f1 g, unfolded Let_def example_session_dims]
  note T = TextFont_batching[where font_id=0 and s="?e" and str="?t" and tr=0 and position="(0, 0)",
      OF f0 f1 g, unfolded Let_def]
  note Q = TextFont_batching[where font_id=0 and s="?q" and str="?t" and tr=0 and position="(0, 0)",
      OF f0 f1q gq, unfolded Let_def]
  have e: "TextFont 0 (0, 0) [] 0 ?e = (Inr True, ?e)"
    by (rule E[THEN conjunct2, THEN conjunct2, THEN conjunct1, rule_format]) simp
  have a4: "0 < length (glyph_commands (font_list ?e ! nat 0) (img_list ?e) 32 320 0 ''AB'' (0, 0))
      \<and> length (glyph_commands (font_list ?e ! nat 0) (img_list ?e) 32 320 0 ''AB'' (0, 0)) < 16"
    using example_glyph_commands_AB by simp
  note a0 = A[THEN conjunct2, THEN conjunct2, THEN conjunct2, THEN conjunct1, rule_format,
      OF a4, THEN conjunct2]
  have a: "writes_of (trace (ser (snd (TextFont 0 (0, 0) ''AB'' 0 ?e)))) =
     writes_of (trace (ser ?e)) @
       [''FSIMG(2097792,0,0,16,16,0);FSIMG(2098304,0,16,16,16,0);'' @ CRLF]"
    using a0 example_glyph_commands_AB by simp
  have n20: "length (glyph_commands (font_list ?e ! nat 0) (img_list ?e) (lcd_w ?e) (lcd_h ?e) 0
      ?t (0, 0)) = 20"
    by (simp add: length_glyph_commands example_session_font_list)
  have n20q: "length (glyph_commands (font_list ?q ! nat 0) (img_list ?q) (lcd_w ?q) (lcd_h ?q) 0
      ?t (0, 0)) = 20"
    by (simp add: length_glyph_commands example_session_font_list)
  note t0 = T[THEN conjunct2, THEN conjunct2, THEN conjunct2, THEN conjunct2, rule_format,
      OF n20, THEN conjunct2, THEN conjunct2, THEN conjunct1, rule_format,
      OF example_answers, THEN conjunct2]
  have t: "length (writes_of (trace (ser (snd (TextFont 0 (0, 0) ?t 0 ?e))))) =
      length (writes_of (trace (ser ?e))) + 2"
    unfolding t0 by simp
  have silent: "\<not> fst (send_serial cmd ?q)" for cmd
    by (simp add: send_serial_fst polled_def)
  note q0 = Q[THEN conjunct2, THEN conjunct2, THEN conjunct2, THEN conjunct2, rule_format,
      OF n20q, THEN conjunct2, THEN conjunct2, THEN conjunct2, rule_format, OF silent]
  have q1: "fst (TextFont 0 (0, 0) ?t 0 ?q) = Inr False"
    unfolding q0[THEN conjunct1] by simp
  have q2: "length (writes_of (trace (ser (snd (TextFont 0 (0, 0) ?t 0 ?q))))) =
        length (writes_of (trace (ser ?e))) + 1"
    unfolding q0[THEN conjunct2] by simp
  note q = conjI[OF q1 q2]
  from f0 f1 e a t q show ?thesis by simp
qed

text \<open>
  Claim C5 as stated fails: a text none of whose characters is in the font gives no glyph
  command, which is fewer than 16, and causes no transmission at all.
\<close>

theorem TextFont_no_glyph_counterexample:
  "length (glyph_commands (font_list example_session ! 0) (img_list example_session)
             (lcd_w example_session) (lcd_h example_session) 0 ''?!'' (0, 0)) = 0 \<and>
   TextFont 0 (0, 0) ''?!'' 0 example_session = (Inr True, example_session) \<and>
   writes_of (trace (ser (snd (TextFont 0 (0, 0) ''?!'' 0 example_session)))) =
     writes_of (trace (ser example_session))"
proof -
  have f1: "0 < int (length (font_list example_session))"
    by (simp add: example_session_font_list)
  have g: "\<forall>c \<in> set ''?!''. \<forall>g. (font_list example_session ! nat 0) c = Some g \<longrightarrow>
      g < length (img_list example_session)"
    using example_session_glyphs by simp
  have c: "glyph_commands (font_list example_session ! 0) (img_list example_session)
             (lcd_w example_session) (lcd_h example_session) 0 ''?!'' (0, 0) = []"
    by (simp add: example_session_font_list)
  have "TextFont 0 (0, 0) ''?!'' 0 example_session = (Inr True, example_session)"
    using TextFont_batches[where font_id=0 and s=example_session and str="''?!''" and tr=0 and
        position="(0, 0)", OF _ f1 g] c by (simp add: batches_Nil)
  with c show ?thesis by simp
qed

lemma TextFont_advance_32: "fst (TextFont_advance 32 lh (16, 16) (0, y)) = 0"
  by (simp add: TextFont_advance_def Let_def)

lemma TextFont_advance_32_next:
  "y + 16 < lh - 16 \<Longrightarrow> TextFont_advance 32 lh (16, 16) (0, y) = (0, y + 16)"
  by (simp add: TextFont_advance_def Let_def)

lemma glyph_commands_32_x:
  assumes "\<forall>c \<in> set str. \<exists>g. f c = Some g \<and> snd (imgs ! g) = (16, 16)"
    and "k < length str"
  shows "length (glyph_commands f imgs 32 lh tr str (0, y0)) = length str \<and>
         (\<exists>y. glyph_commands f imgs 32 lh tr str (0, y0) ! k =
                FSIMG (fst (imgs ! the (f (str ! k)))) 0 y 16 16 tr @ '';'')"
  using assms
proof (induction str arbitrary: y0 k)
  case Nil
  then show ?case by simp
next
  case (Cons c cs)
  from Cons.prems(1) obtain g where g: "f c = Some g" "snd (imgs ! g) = (16, 16)" by auto
  from Cons.prems(1) have rest: "\<forall>c \<in> set cs. \<exists>g. f c = Some g \<and> snd (imgs ! g) = (16, 16)"
    by simp
  obtain y1 where y1: "TextFont_advance 32 lh (16, 16) (0, y0) = (0, y1)"
    using TextFont_advance_32[of lh y0] by (cases "TextFont_advance 32 lh (16, 16) (0, y0)") simp
  have gc: "glyph_commands f imgs 32 lh tr (c # cs) (0, y0) =
      (FSIMG (fst (imgs ! g)) 0 y0 16 16 tr @ '';'') # glyph_commands f imgs 32 lh tr cs (0, y1)"
    by (simp add: g y1)
  show ?case
  proof (cases k)
    case 0
    have "length (glyph_commands f imgs 32 lh tr cs (0, y1)) = length cs"
    proof (cases cs)
      case Nil
      then show ?thesis by simp
    next
      case (Cons d ds)
      with Cons.IH[OF rest, of 0 y1] show ?thesis by simp
    qed
    with 0 g show ?thesis unfolding gc by auto
  next
    case (Suc j)
    with Cons.prems(2) have "j < length cs" by simp
    from Cons.IH[OF rest this, of y1] Suc show ?thesis unfolding gc by simp
  qed
qed

lemma glyph_commands_32_y:
  assumes "\<forall>c \<in> set str. \<exists>g. f c = Some g \<and> snd (imgs ! g) = (16, 16)"
    and "k < length str" and "y0 + 16 * int (length str) < lh"
  shows "glyph_commands f imgs 32 lh tr str (0, y0) ! k =
           FSIMG (fst (imgs ! the (f (str ! k)))) 0 (y0 + 16 * int k) 16 16 tr @ '';''"
  using assms
proof (induction str arbitrary: y0 k)
  case Nil
  then show ?case by simp
next
  case (Cons c cs)
  from Cons.prems(1) obtain g where g: "f c = Some g" "snd (imgs ! g) = (16, 16)" by auto
  from Cons.prems(1) have rest: "\<forall>c \<in> set cs. \<exists>g. f c = Some g \<and> snd (imgs ! g) = (16, 16)"
    by simp
  show ?case
  proof (cases k)
    case 0
    with g show ?thesis by simp
  next
    case (Suc j)
    with Cons.prems(2) have j: "j < length cs" by simp
    then have "1 \<le> int (length cs)" by simp
    with Cons.prems(3) have nowrap: "y0 + 16 < lh - 16" by simp
    from Cons.prems(3) have h: "(y0 + 16) + 16 * int (length cs) < lh" by simp
    have gc: "glyph_commands f imgs 32 lh tr (c # cs) (0, y0) =
        (FSIMG (fst (imgs ! g)) 0 y0 16 16 tr @ '';'') #
        glyph_commands f imgs 32 lh tr cs (0, y0 + 16)"
      by (simp add: g TextFont_advance_32_next[OF nowrap])
    from Cons.IH[OF rest j h] Suc show ?thesis unfolding gc by (simp add: algebra_simps)
  qed
qed

text \<open>
  Claim C6, as amended. On a display whose logical width is 32, a text of 10 characters
  in a font of 16x16 glyphs drawn from (0,0) is sent as one transmission of 10 commands, and
  every one of them places its glyph at x = 0: after each glyph the advanced x is 16, which
  is at least 32 - 16, so the draw cursor wraps after one glyph per line. When the logical
  height is more than 160 no screen wrap occurs and glyph k is at (0, 16*k).
\<close>

theorem TextFont_one_glyph_per_line:
  assumes "0 \<le> font_id" and "font_id < int (length (font_list s))"
    and "lcd_w s = 32"
    and "\<forall>c \<in> set str. \<exists>g. (font_list s ! nat font_id) c = Some g \<and> g < length (img_list s) \<and>
           snd (img_list s ! g) = (16, 16)"
    and "length str = 10"
  shows
    "let f = font_list s ! nat font_id;
         cmds = glyph_commands f (img_list s) (lcd_w s) (lcd_h s) tr str (0, 0);
         r = send_serial (concat cmds) s
     in TextFont font_id (0, 0) str tr s = (Inr (fst r), snd r) \<and>
        length cmds = 10 \<and>
        (\<forall>k < 10. \<exists>y. cmds ! k = FSIMG (fst (img_list s ! the (f (str ! k)))) 0 y 16 16 tr @ '';'') \<and>
        (160 < lcd_h s \<longrightarrow>
           (\<forall>k < 10. cmds ! k =
              FSIMG (fst (img_list s ! the (f (str ! k)))) 0 (16 * int k) 16 16 tr @ '';''))"
proof -
  define f where "f = font_list s ! nat font_id"
  define cmds where "cmds = glyph_commands f (img_list s) (lcd_w s) (lcd_h s) tr str (0, 0)"
  have sizes: "\<forall>c \<in> set str. \<exists>g. f c = Some g \<and> snd (img_list s ! g) = (16, 16)"
    using assms(4) unfolding f_def by blast
  have valid: "\<forall>c \<in> set str. \<forall>g. (font_list s ! nat font_id) c = Some g \<longrightarrow>
      g < length (img_list s)"
    using assms(4) by fastforce
  have c32: "cmds = glyph_commands f (img_list s) 32 (lcd_h s) tr str (0, 0)"
    by (simp add: cmds_def assms(3))
  have len: "length cmds = 10"
    using glyph_commands_32_x[OF sizes, of 0 "lcd_h s" tr 0] assms(5) by (simp add: c32)
  have xs: "\<forall>k < 10. \<exists>y. cmds ! k =
      FSIMG (fst (img_list s ! the (f (str ! k)))) 0 y 16 16 tr @ '';''"
    using glyph_commands_32_x[OF sizes, of _ "lcd_h s" tr 0] assms(5) by (simp add: c32)
  have ys: "\<forall>k < 10. cmds ! k =
      FSIMG (fst (img_list s ! the (f (str ! k)))) 0 (16 * int k) 16 16 tr @ '';''"
    if "160 < lcd_h s"
    using glyph_commands_32_y[OF sizes, of _ 0 "lcd_h s" tr] assms(5) that by (simp add: c32)
  have "batches cmds = [cmds]" using len by (intro batches_short) auto
  then have sent: "TextFont font_id (0, 0) str tr s =
      (Inr (fst (send_serial (concat cmds) s)), snd (send_serial (concat cmds) s))"
    using TextFont_batches[OF assms(1,2) valid, of "(0, 0)" tr]
    by (simp add: cmds_def f_def send_batches_single)
  show ?thesis
    unfolding Let_def f_def[symmetric] cmds_def[symmetric]
    using sent len xs ys by blast
qed

lemma example_glyph_commands_10:
  "glyph_commands (font_list example_session ! 0) (img_list example_session) 32 320 0
     ''ABABABABAB'' (0, 0) =
     [''FSIMG(2097792,0,0,16,16,0);'',
      ''FSIMG(2098304,0,16,16,16,0);'',
      ''FSIMG(2097792,0,32,16,16,0);'',
      ''FSIMG(2098304,0,48,16,16,0);'',
      ''FSIMG(2097792,0,64,16,16,0);'',
      ''FSIMG(2098304,0,80,16,16,0);'',
      ''FSIMG(2097792,0,96,16,16,0);'',
      ''FSIMG(2098304,0,112,16,16,0);'',
      ''FSIMG(2097792,0,128,16,16,0);'',
      ''FSIMG(2098304,0,144,16,16,0);'']"
  by (simp add: example_session_font_list example_session_img_list TextFont_advance_def
      FSIMG_def str_int_eval Let_def)

lemma example_session_sizes:
  "c \<in> set ''ABABABABAB'' \<Longrightarrow>
   \<exists>g. (font_list example_session ! nat 0) c = Some g \<and> g < length (img_list example_session) \<and>
       snd (img_list example_session ! g) = (16, 16)"
  by (auto simp: example_session_font_list example_session_img_list)

text \<open>
  The text ABABABABAB on the example session: the second glyph is at (0,16) and the third
  at (0,32).
\<close>

theorem TextFont_one_glyph_per_line_witness:
  "(0 :: int) \<le> 0 \<and> 0 < int (length (font_list example_session)) \<and>
   lcd_w example_session = 32 \<and> length ''ABABABABAB'' = 10 \<and> 160 < lcd_h example_session \<and>
   glyph_commands (font_list example_session ! nat 0) (img_list example_session)
     (lcd_w example_session) (lcd_h example_session) 0 ''ABABABABAB'' (0, 0) ! 1 =
     ''FSIMG(2098304,0,16,16,16,0);'' \<and>
   glyph_commands (font_list example_session ! nat 0) (img_list example_session)
     (lcd_w example_session) (lcd_h example_session) 0 ''ABABABABAB'' (0, 0) ! 2 =
     ''FSIMG(2097792,0,32,16,16,0);'' \<and>
   writes_of (trace (ser (snd (TextFont 0 (0, 0) ''ABABABABAB'' 0 example_session)))) =
     writes_of (trace (ser example_session)) @
       [concat (glyph_commands (font_list example_session ! nat 0) (img_list example_session)
          (lcd_w example_session) (lcd_h example_session) 0 ''ABABABABAB'' (0, 0)) @ CRLF]"
proof -
  let ?e = example_session
  let ?t = "''ABABABABAB''"
  have f0: "(0 :: int) \<le> 0" by simp
  have f1: "0 < int (length (font_list ?e))" by (simp add: example_session_font_list)
  have w: "lcd_w ?e = 32" by (rule example_session_dims)
  have g: "\<forall>c \<in> set ?t. \<exists>g. (font_list ?e ! nat 0) c = Some g \<and> g < length (img_list ?e) \<and>
      snd (img_list ?e ! g) = (16, 16)"
    using example_session_sizes by blast
  have l: "length ?t = 10" by simp
  have h: "160 < lcd_h ?e" by (simp add: example_session_dims)
  note T = TextFont_one_glyph_per_line[where font_id=0 and s="?e" and str="?t" and tr=0,
      OF f0 f1 w g l, unfolded Let_def]
  note Y = T[THEN conjunct2, THEN conjunct2, THEN conjunct2, rule_format, OF h]
  have k1: "(1 :: nat) < 10" and k2: "(2 :: nat) < 10" by simp_all
  have a1: "FSIMG (fst (img_list ?e ! the ((font_list ?e ! nat 0) (?t ! 1)))) 0 (16 * int 1)
      16 16 0 @ '';'' = ''FSIMG(2098304,0,16,16,16,0);''"
    by (simp add: example_session_font_list example_session_img_list FSIMG_def str_int_eval)
  have a2: "FSIMG (fst (img_list ?e ! the ((font_list ?e ! nat 0) (?t ! 2)))) 0 (16 * int 2)
      16 16 0 @ '';'' = ''FSIMG(2097792,0,32,16,16,0);''"
    by (simp add: example_session_font_list example_session_img_list FSIMG_def str_int_eval)
  note c1 = trans[OF Y[OF k1] a1] and c2 = trans[OF Y[OF k2] a2]
  have s: "writes_of (trace (ser (snd (TextFont 0 (0, 0) ?t 0 ?e)))) =
     writes_of (trace (ser ?e)) @
       [concat (glyph_commands (font_list ?e ! nat 0) (img_list ?e) (lcd_w ?e) (lcd_h ?e) 0 ?t
          (0, 0)) @ CRLF]"
    unfolding T[THEN conjunct1] by (simp add: send_serial_writes)
  from f0 f1 w l h c1 c2 s show ?thesis by blast
qed

text \<open>
  Claim C6 as stated fails: on the example session, 32 pixels wide, the transmission for
  ABABABABAB places the ten glyphs at (0,0), (0,16), ..., (0,144), one per line, and not at
  (0,0), (16,0), (0,16), (16,16), ... as two glyphs per line would.
\<close>

theorem TextFont_two_per_line_counterexample:
  "last (writes_of (trace (ser (snd (TextFont 0 (0, 0) ''ABABABABAB'' 0 example_session))))) =
     ''FSIMG(2097792,0,0,16,16,0);'' @
     ''FSIMG(2098304,0,16,16,16,0);'' @
     ''FSIMG(2097792,0,32,16,16,0);'' @
     ''FSIMG(2098304,0,48,16,16,0);'' @
     ''FSIMG(2097792,0,64,16,16,0);'' @
     ''FSIMG(2098304,0,80,16,16,0);'' @
     ''FSIMG(2097792,0,96,16,16,0);'' @
     ''FSIMG(2098304,0,112,16,16,0);'' @
     ''FSIMG(2097792,0,128,16,16,0);'' @
     ''FSIMG(2098304,0,144,16,16,0);'' @ CRLF \<and>
   last (writes_of (trace (ser (snd (TextFont 0 (0, 0) ''ABABABABAB'' 0 example_session))))) \<noteq>
     ''FSIMG(2097792,0,0,16,16,0);'' @
     ''FSIMG(2098304,16,0,16,16,0);'' @
     ''FSIMG(2097792,0,16,16,16,0);'' @
     ''FSIMG(2098304,16,16,16,16,0);'' @
     ''FSIMG(2097792,0,32,16,16,0);'' @
     ''FSIMG(2098304,16,32,16,16,0);'' @
     ''FSIMG(2097792,0,48,16,16,0);'' @
     ''FSIMG(2098304,16,48,16,16,0);'' @
     ''FSIMG(2097792,0,64,16,16,0);'' @
     ''FSIMG(2098304,16,64,16,16,0);'' @ CRLF"
proof -
  have f1: "0 < int (length (font_list example_session))"
    by (simp add: example_session_font_list)
  have g: "\<forall>c \<in> set ''ABABABABAB''. \<forall>g. (font_list example_session ! nat 0) c = Some g \<longrightarrow>
      g < length (img_list example_session)"
    using example_session_glyphs by simp
  define cs where "cs = glyph_commands (font_list example_session ! 0) (img_list example_session)
      32 320 0 ''ABABABABAB'' (0, 0)"
  note cs_val = example_glyph_commands_10[folded cs_def]
  have b: "batches cs = [cs]"
    by (rule batches_short) (simp_all add: cs_val)
  have f0: "(0 :: int) \<le> 0" by simp
  note tf = TextFont_batches[where font_id=0 and s=example_session and str="''ABABABABAB''" and
        tr=0 and position="(0, 0)", OF f0 f1 g,
        unfolded example_session_dims nat_0 cs_def[symmetric] b send_batches_single]
  have "last (writes_of (trace (ser (snd (TextFont 0 (0, 0) ''ABABABABAB'' 0
      example_session))))) = concat cs @ CRLF"
    unfolding tf by (simp add: send_serial_writes)
  then show ?thesis
    unfolding cs_val by simp
qed

end
